theory Spec2Isabelle
  imports Main "HOL-Library.Word"
begin

unbundle bit_operations_syntax

section \<open>RPC reply tracking (derecho/rpc\_utils.h)\<close>

subsection \<open>Identifiers, exceptions, and the one-shot channels of the C++ library\<close>

text \<open>
  \<^verbatim>\<open>using node_id_t = uint32_t;\<close> and \<^verbatim>\<open>using node_list_t = std::vector<node_id_t>;\<close>
\<close>

type_synonym node_id_t = "32 word"
type_synonym node_list_t = "node_id_t list"

text \<open>
  The error codes of \<^verbatim>\<open>std::future_error\<close>, and the exceptions that travel through an
  \<^verbatim>\<open>std::exception_ptr\<close>: the two exception structs of the header, the library's
  \<^verbatim>\<open>future_error\<close> and \<^verbatim>\<open>out_of_range\<close>, and any other exception, kept by its message.
\<close>

datatype future_errc =
    broken_promise
  | future_already_retrieved
  | promise_already_satisfied
  | no_state

datatype exception_ptr =
    remote_exception_occurred node_id_t
  | node_removed_from_group_exception node_id_t
  | future_error future_errc
  | out_of_range
  | other_exception string

text \<open>
  How a call ends. A failed \<^verbatim>\<open>assert\<close> aborts the process; a call on a future that has
  no shared state is undefined behaviour in C++; a \<^verbatim>\<open>get\<close> on a future whose shared state
  is not ready does not return until another thread makes it ready.
\<close>

datatype 'r outcome =
    Returned 'r
  | Threw exception_ptr
  | Assertion_failed
  | Undefined_behaviour
  | Blocks

text \<open>
  The shared state of a \<^verbatim>\<open>std::promise<T>\<close> / \<^verbatim>\<open>std::future<T>\<close> pair is empty until it
  is made ready, once, with a value or with an exception. A promise owns its shared state
  and remembers whether its future has been handed out.
\<close>

datatype 'a result = Value 'a | Exception exception_ptr

record 'a promise =
  shared_state :: "'a result option"
  future_retrieved :: bool

definition new_promise :: "'a promise" where
  "new_promise = \<lparr>shared_state = None, future_retrieved = False\<rparr>"

text \<open>\<^verbatim>\<open>promise::set_value\<close> and \<^verbatim>\<open>promise::set_exception\<close>: both throw
  \<^verbatim>\<open>future_error(promise_already_satisfied)\<close> when the shared state is ready already.\<close>

definition promise_set :: "'a promise \<Rightarrow> 'a result \<Rightarrow> exception_ptr + 'a promise" where
  "promise_set p r =
     (case shared_state p of
        Some _ \<Rightarrow> Inl (future_error promise_already_satisfied)
      | None \<Rightarrow> Inr (p\<lparr>shared_state := Some r\<rparr>))"

text \<open>\<^verbatim>\<open>promise::get_future\<close>: throws \<^verbatim>\<open>future_error(future_already_retrieved)\<close> on the
  second call.\<close>

definition promise_get_future :: "'a promise \<Rightarrow> exception_ptr + 'a promise" where
  "promise_get_future p =
     (if future_retrieved p then Inl (future_error future_already_retrieved)
      else Inr (p\<lparr>future_retrieved := True\<rparr>))"

text \<open>
  A \<^verbatim>\<open>std::future<T>\<close> in the reply map either refers to the shared state of the promise
  kept for a peer in \<^verbatim>\<open>populated_promises\<close>, or to nothing (after \<^verbatim>\<open>get\<close> or a move).
  \<^verbatim>\<open>future::valid()\<close> says which; it does not say whether the shared state is ready.
\<close>

datatype future = Refers_to node_id_t | No_shared_state

fun future_valid :: "future \<Rightarrow> bool" where
  "future_valid (Refers_to _) = True"
| "future_valid No_shared_state = False"

text \<open>
  \<^verbatim>\<open>template <typename T> using reply_map = std::map<node_id_t, std::future<T>>;\<close>
  The map is kept as a list of pairs in ascending key order. \<^verbatim>\<open>emplace\<close> leaves the map
  as it is when the key is present.
\<close>

type_synonym reply_map = "(node_id_t \<times> future) list"

fun emplace :: "node_id_t \<Rightarrow> future \<Rightarrow> reply_map \<Rightarrow> reply_map" where
  "emplace k v [] = [(k, v)]"
| "emplace k v ((k', v') # m) =
     (if k = k' then (k', v') # m
      else if k < k' then (k, v) # (k', v') # m
      else (k', v') # emplace k v m)"

definition count_rmap :: "reply_map \<Rightarrow> node_id_t \<Rightarrow> nat" where
  "count_rmap m k = (case map_of m k of None \<Rightarrow> 0 | Some _ \<Rightarrow> 1)"

fun assign_at :: "reply_map \<Rightarrow> node_id_t \<Rightarrow> future \<Rightarrow> reply_map" where
  "assign_at [] k v = []"
| "assign_at ((k', v') # m) k v =
     (if k = k' then (k', v) # m else (k', v') # assign_at m k v)"

subsection \<open>PendingResults\<close>

text \<open>
  \<^verbatim>\<open>
  template <typename T>
  struct PendingResults : public PendingBase {
      std::promise<std::unique_ptr<reply_map<T>>> pending_map;
      std::map<node_id_t, std::promise<T>> populated_promises;
      bool map_fulfilled = false;
      std::set<node_id_t> dest_nodes, responded_nodes;
  \<close>
\<close>

record 'a PendingResults =
  pending_map :: "reply_map promise"
  populated_promises :: "node_id_t \<rightharpoonup> 'a promise"
  map_fulfilled :: bool
  dest_nodes :: "node_id_t set"
  responded_nodes :: "node_id_t set"

definition new_PendingResults :: "'a PendingResults" where
  "new_PendingResults =
     \<lparr>pending_map = new_promise, populated_promises = Map.empty, map_fulfilled = False,
      dest_nodes = {}, responded_nodes = {}\<rparr>"

text \<open>\<^verbatim>\<open>populated_promises[e]\<close>: \<^verbatim>\<open>std::map::operator[]\<close> inserts a default-constructed
  promise when the key is absent.\<close>

definition subscript :: "(node_id_t \<rightharpoonup> 'a promise) \<Rightarrow> node_id_t \<Rightarrow> 'a promise" where
  "subscript pp e = (case pp e of None \<Rightarrow> new_promise | Some p \<Rightarrow> p)"

text \<open>
  The loop of \<^verbatim>\<open>fulfill_map\<close>:
  \<^verbatim>\<open>
  for(const auto& e : who) {
      to_add->emplace(e, populated_promises[e].get_future());
  }
  \<close>
  The argument \<^verbatim>\<open>populated_promises[e].get_future()\<close> is evaluated before \<^verbatim>\<open>emplace\<close>
  runs, so an exception of \<^verbatim>\<open>get_future\<close> leaves the loop with the promise inserted.
\<close>

fun fulfill_map_loop ::
  "node_list_t \<Rightarrow> reply_map \<Rightarrow> (node_id_t \<rightharpoonup> 'a promise) \<Rightarrow>
   exception_ptr option \<times> reply_map \<times> (node_id_t \<rightharpoonup> 'a promise)" where
  "fulfill_map_loop [] to_add pp = (None, to_add, pp)"
| "fulfill_map_loop (e # who) to_add pp =
     (case promise_get_future (subscript pp e) of
        Inl x \<Rightarrow> (Some x, to_add, pp(e \<mapsto> subscript pp e))
      | Inr p \<Rightarrow> fulfill_map_loop who (emplace e (Refers_to e) to_add) (pp(e \<mapsto> p)))"

text \<open>
  \<^verbatim>\<open>
  void fulfill_map(const node_list_t& who) {
      map_fulfilled = true;
      std::unique_ptr<reply_map<T>> to_add = std::make_unique<reply_map<T>>();
      for(const auto& e : who) { ... }
      dest_nodes.insert(who.begin(), who.end());
      pending_map.set_value(std::move(to_add));
  }
  \<close>
  Every operation returns how the call ended together with the object as the call left
  it: an exception does not undo the assignments made before it.
\<close>

definition fulfill_map ::
  "'a PendingResults \<Rightarrow> node_list_t \<Rightarrow> unit outcome \<times> 'a PendingResults" where
  "fulfill_map this who =
     (let this1 = this\<lparr>map_fulfilled := True\<rparr> in
      case fulfill_map_loop who [] (populated_promises this1) of
        (Some x, to_add, pp) \<Rightarrow> (Threw x, this1\<lparr>populated_promises := pp\<rparr>)
      | (None, to_add, pp) \<Rightarrow>
          (let this2 = this1\<lparr>populated_promises := pp,
                             dest_nodes := dest_nodes this1 \<union> set who\<rparr> in
           case promise_set (pending_map this2) (Value to_add) of
             Inl x \<Rightarrow> (Threw x, this2)
           | Inr pm \<Rightarrow> (Returned (), this2\<lparr>pending_map := pm\<rparr>)))"

text \<open>
  \<^verbatim>\<open>
  void set_value(const node_id_t& nid, const T& v) {
      responded_nodes.insert(nid);
      populated_promises[nid].set_value(v);
  }
  void set_exception(const node_id_t& nid, const std::exception_ptr e) {
      responded_nodes.insert(nid);
      populated_promises[nid].set_exception(e);
  }
  \<close>
\<close>

definition respond_with ::
  "'a PendingResults \<Rightarrow> node_id_t \<Rightarrow> 'a result \<Rightarrow> unit outcome \<times> 'a PendingResults" where
  "respond_with this nid r =
     (let this1 = this\<lparr>responded_nodes := insert nid (responded_nodes this)\<rparr>;
          p = subscript (populated_promises this1) nid;
          this2 = this1\<lparr>populated_promises := (populated_promises this1)(nid \<mapsto> p)\<rparr> in
      case promise_set p r of
        Inl x \<Rightarrow> (Threw x, this2)
      | Inr p' \<Rightarrow>
          (Returned (), this2\<lparr>populated_promises := (populated_promises this2)(nid \<mapsto> p')\<rparr>))"

definition set_value ::
  "'a PendingResults \<Rightarrow> node_id_t \<Rightarrow> 'a \<Rightarrow> unit outcome \<times> 'a PendingResults" where
  "set_value this nid v = respond_with this nid (Value v)"

definition set_exception ::
  "'a PendingResults \<Rightarrow> node_id_t \<Rightarrow> exception_ptr \<Rightarrow> unit outcome \<times> 'a PendingResults" where
  "set_exception this nid e = respond_with this nid (Exception e)"

text \<open>
  \<^verbatim>\<open>
  void set_exception_for_removed_node(const node_id_t& removed_nid) {
      assert(map_fulfilled);
      if(dest_nodes.find(removed_nid) != dest_nodes.end() &&
         responded_nodes.find(removed_nid) == responded_nodes.end()) {
          set_exception(removed_nid,
                        std::make_exception_ptr(
                            node_removed_from_group_exception{removed_nid}));
      }
  }
  \<close>
  The first argument of every function with an \<^verbatim>\<open>assert\<close> says whether the build defines
  \<^verbatim>\<open>NDEBUG\<close>, which compiles the assertions away.
\<close>

definition set_exception_for_removed_node ::
  "bool \<Rightarrow> 'a PendingResults \<Rightarrow> node_id_t \<Rightarrow> unit outcome \<times> 'a PendingResults" where
  "set_exception_for_removed_node ndebug this removed_nid =
     (if \<not> ndebug \<and> \<not> map_fulfilled this then (Assertion_failed, this)
      else if removed_nid \<in> dest_nodes this \<and> removed_nid \<notin> responded_nodes this
      then set_exception this removed_nid (node_removed_from_group_exception removed_nid)
      else (Returned (), this))"

text \<open>The result slot of a peer: the shared state of its promise, empty when the promise
  does not exist yet.\<close>

definition slot :: "'a PendingResults \<Rightarrow> node_id_t \<Rightarrow> 'a result option" where
  "slot this nid =
     (case populated_promises this nid of None \<Rightarrow> None | Some p \<Rightarrow> shared_state p)"

text \<open>The calls the RPC engine makes on a PendingResults object, and a run of them from a
  new object. A run goes on after a call that threw or hit an assertion, with the object
  as that call left it.\<close>

datatype 'a pending_call =
    Fulfill_map node_list_t
  | Set_value node_id_t 'a
  | Set_exception node_id_t exception_ptr
  | Set_exception_for_removed_node node_id_t

fun call :: "bool \<Rightarrow> 'a PendingResults \<Rightarrow> 'a pending_call \<Rightarrow> unit outcome \<times> 'a PendingResults" where
  "call ndebug this (Fulfill_map who) = fulfill_map this who"
| "call ndebug this (Set_value nid v) = set_value this nid v"
| "call ndebug this (Set_exception nid e) = set_exception this nid e"
| "call ndebug this (Set_exception_for_removed_node nid) =
     set_exception_for_removed_node ndebug this nid"

fun run :: "bool \<Rightarrow> 'a PendingResults \<Rightarrow> 'a pending_call list \<Rightarrow> 'a PendingResults" where
  "run ndebug this [] = this"
| "run ndebug this (c # cs) = run ndebug (snd (call ndebug this c)) cs"

subsection \<open>QueryResults\<close>

text \<open>
  \<^verbatim>\<open>
  template <typename T>
  struct QueryResults {
      using map_fut = std::future<std::unique_ptr<reply_map<T>>>;
      map_fut pending_rmap;
      struct ReplyMap {
      private:
          QueryResults& parent;
      public:
          map rmap;
          ...
      };
  private:
      ReplyMap replies{*this};
  \<close>
  The future \<^verbatim>\<open>pending_rmap\<close> refers to the shared state of \<^verbatim>\<open>pending_map\<close> until \<^verbatim>\<open>get\<close>
  releases it. The \<^verbatim>\<open>parent\<close> of a ReplyMap is the QueryResults that holds it, given to
  \<^verbatim>\<open>ReplyMap::get\<close> as an argument.
\<close>

datatype map_fut = Pending_map_future | No_map_state

record ReplyMap =
  rmap :: reply_map

record QueryResults =
  pending_rmap :: map_fut
  replies :: ReplyMap

text \<open>A QueryResults as its constructor leaves it: the future of \<^verbatim>\<open>pending_map\<close>, and an
  empty \<^verbatim>\<open>replies.rmap\<close>.\<close>

definition new_QueryResults :: QueryResults where
  "new_QueryResults = \<lparr>pending_rmap = Pending_map_future, replies = \<lparr>rmap = []\<rparr>\<rparr>"

text \<open>
  \<^verbatim>\<open>QueryResults<T> get_future() { return QueryResults<T>{pending_map.get_future()}; }\<close>
\<close>

definition get_future :: "'a PendingResults \<Rightarrow> QueryResults outcome \<times> 'a PendingResults" where
  "get_future this =
     (case promise_get_future (pending_map this) of
        Inl x \<Rightarrow> (Threw x, this)
      | Inr pm \<Rightarrow>
          (Returned new_QueryResults, this\<lparr>pending_map := pm\<rparr>))"

text \<open>
  \<^verbatim>\<open>
  bool valid(const node_id_t& nid) {
      assert(rmap.size() == 0 || rmap.count(nid));
      return (rmap.size() > 0) && rmap.at(nid).valid();
  }
  \<close>
  \<^verbatim>\<open>std::map::at\<close> throws \<^verbatim>\<open>std::out_of_range\<close> for a key the map does not hold.
\<close>

definition valid :: "bool \<Rightarrow> ReplyMap \<Rightarrow> node_id_t \<Rightarrow> bool outcome" where
  "valid ndebug this nid =
     (if \<not> ndebug \<and> \<not> (length (rmap this) = 0 \<or> count_rmap (rmap this) nid \<noteq> 0)
      then Assertion_failed
      else if \<not> length (rmap this) > 0 then Returned False
      else case map_of (rmap this) nid of
             None \<Rightarrow> Threw out_of_range
           | Some f \<Rightarrow> Returned (future_valid f))"

text \<open>\<^verbatim>\<open>bool contains(const node_id_t& nid) { return rmap.count(nid); }\<close>\<close>

definition contains :: "ReplyMap \<Rightarrow> node_id_t \<Rightarrow> bool" where
  "contains this nid \<longleftrightarrow> count_rmap (rmap this) nid \<noteq> 0"

text \<open>
  \<^verbatim>\<open>future::get\<close>, read against the writer's object as it stands: undefined without a
  shared state, blocked while the shared state is empty, and otherwise the value or the
  stored exception, after which the future refers to nothing.
\<close>

definition map_fut_get :: "'a PendingResults \<Rightarrow> map_fut \<Rightarrow> reply_map outcome \<times> map_fut" where
  "map_fut_get pr f =
     (case f of
        No_map_state \<Rightarrow> (Undefined_behaviour, f)
      | Pending_map_future \<Rightarrow>
          (case shared_state (pending_map pr) of
             None \<Rightarrow> (Blocks, f)
           | Some (Value m) \<Rightarrow> (Returned m, No_map_state)
           | Some (Exception x) \<Rightarrow> (Threw x, No_map_state)))"

definition future_get :: "'a PendingResults \<Rightarrow> future \<Rightarrow> 'a outcome \<times> future" where
  "future_get pr f =
     (case f of
        No_shared_state \<Rightarrow> (Undefined_behaviour, f)
      | Refers_to n \<Rightarrow>
          (case slot pr n of
             None \<Rightarrow> (Blocks, f)
           | Some (Value v) \<Rightarrow> (Returned v, No_shared_state)
           | Some (Exception x) \<Rightarrow> (Threw x, No_shared_state)))"

text \<open>A call that did not return ends the caller the same way.\<close>

fun passed_on :: "'a outcome \<Rightarrow> 'b outcome" where
  "passed_on (Threw x) = Threw x"
| "passed_on Assertion_failed = Assertion_failed"
| "passed_on Blocks = Blocks"
| "passed_on _ = Undefined_behaviour"

text \<open>
  \<^verbatim>\<open>
  auto get(const node_id_t& nid) {
      if(rmap.size() == 0) {
          assert(parent.pending_rmap.valid());
          rmap = std::move(*parent.pending_rmap.get());
      }
      assert(rmap.size() > 0);
      assert(rmap.count(nid));
      assert(rmap.at(nid).valid());
      return rmap.at(nid).get();
  }
  \<close>
  The call is made on a ReplyMap \<open>this\<close>, whose member \<^verbatim>\<open>rmap\<close> it assigns, and goes through
  the reference \<^verbatim>\<open>parent\<close> to a QueryResults, whose future it releases. The two are separate
  arguments: a ReplyMap built with the public constructor, or the member \<^verbatim>\<open>replies\<close> of a
  QueryResults that was moved (its \<^verbatim>\<open>parent\<close> still refers to the object moved from), is not
  the member \<^verbatim>\<open>replies\<close> of its parent. The first half, which fetches the map when \<^verbatim>\<open>rmap\<close> is
  empty, and then the whole.
\<close>

definition ReplyMap_fetch ::
  "bool \<Rightarrow> 'a PendingResults \<Rightarrow> ReplyMap \<Rightarrow> QueryResults \<Rightarrow>
   unit outcome \<times> ReplyMap \<times> QueryResults" where
  "ReplyMap_fetch ndebug pr this parent =
     (if length (rmap this) = 0 then
        (if \<not> ndebug \<and> pending_rmap parent = No_map_state then (Assertion_failed, this, parent)
         else case map_fut_get pr (pending_rmap parent) of
                (Returned m, f) \<Rightarrow> (Returned (), this\<lparr>rmap := m\<rparr>, parent\<lparr>pending_rmap := f\<rparr>)
              | (other, f) \<Rightarrow> (passed_on other, this, parent\<lparr>pending_rmap := f\<rparr>))
      else (Returned (), this, parent))"

definition ReplyMap_get ::
  "bool \<Rightarrow> 'a PendingResults \<Rightarrow> ReplyMap \<Rightarrow> QueryResults \<Rightarrow> node_id_t \<Rightarrow>
   'a outcome \<times> ReplyMap \<times> QueryResults" where
  "ReplyMap_get ndebug pr this parent nid =
     (case ReplyMap_fetch ndebug pr this parent of
        (Returned u, this1, parent1) \<Rightarrow>
          (let m = rmap this1 in
           if \<not> ndebug \<and> \<not> length m > 0 then (Assertion_failed, this1, parent1)
           else if \<not> ndebug \<and> count_rmap m nid = 0 then (Assertion_failed, this1, parent1)
           else case map_of m nid of
                  None \<Rightarrow> (Threw out_of_range, this1, parent1)
                | Some f \<Rightarrow>
                    if \<not> ndebug \<and> \<not> future_valid f then (Assertion_failed, this1, parent1)
                    else (case future_get pr f of
                            (r, f') \<Rightarrow> (r, this1\<lparr>rmap := assign_at m nid f'\<rparr>, parent1)))
      | (other, this1, parent1) \<Rightarrow> (passed_on other, this1, parent1))"

text \<open>
  Time, for \<^verbatim>\<open>wait\<close>: instants and durations are counted in seconds on the reader's clock.
  The history of the shared state of \<^verbatim>\<open>pending_map\<close> on that clock: it is never made ready,
  or another thread makes it ready at an instant.
\<close>

datatype timeline = Never_ready | Ready_at nat "reply_map result"

datatype future_status = ready | timeout

text \<open>
  \<^verbatim>\<open>future::wait_for(t)\<close> started at instant \<open>now\<close>: it returns \<^verbatim>\<open>ready\<close> as soon as the shared
  state is ready, and \<^verbatim>\<open>timeout\<close> after \<open>t\<close> otherwise. The second component is the instant of
  the return.
\<close>

definition wait_for :: "timeline \<Rightarrow> nat \<Rightarrow> nat \<Rightarrow> future_status \<times> nat" where
  "wait_for hist now t =
     (case hist of
        Never_ready \<Rightarrow> (timeout, now + t)
      | Ready_at a r \<Rightarrow> if a \<le> now + t then (ready, max now a) else (timeout, now + t))"

text \<open>
  \<^verbatim>\<open>future::get\<close> on \<^verbatim>\<open>pending_rmap\<close>, called at instant \<open>now\<close>: it waits until the shared
  state is ready, and releases the future.
\<close>

definition map_fut_get_at :: "timeline \<Rightarrow> nat \<Rightarrow> reply_map outcome \<times> map_fut \<times> nat" where
  "map_fut_get_at hist now =
     (case hist of
        Never_ready \<Rightarrow> (Blocks, Pending_map_future, now)
      | Ready_at a (Value m) \<Rightarrow> (Returned m, No_map_state, max now a)
      | Ready_at a (Exception x) \<Rightarrow> (Threw x, No_map_state, max now a))"

text \<open>
  \<^verbatim>\<open>
  template <typename Time>
  ReplyMap* wait(Time t) {
      if(replies.rmap.size() == 0) {
          if(pending_rmap.wait_for(t) == std::future_status::ready) {
              replies.rmap = std::move(*pending_rmap.get());
              return &replies;
          } else
              return nullptr;
      } else
          return &replies;
  }
  \<close>
  The result is the ReplyMap pointed to, or \<open>None\<close> for \<^verbatim>\<open>nullptr\<close>, with the object and the
  instant at which the call ends. Calling \<^verbatim>\<open>wait_for\<close> on a future without a shared state
  is undefined behaviour.
\<close>

definition wait ::
  "timeline \<Rightarrow> QueryResults \<Rightarrow> nat \<Rightarrow> nat \<Rightarrow> ReplyMap option outcome \<times> QueryResults \<times> nat" where
  "wait hist this now t =
     (if length (rmap (replies this)) = 0 then
        (case pending_rmap this of
           No_map_state \<Rightarrow> (Undefined_behaviour, this, now)
         | Pending_map_future \<Rightarrow>
             (case wait_for hist now t of
                (ready, now') \<Rightarrow>
                  (case map_fut_get_at hist now' of
                     (Returned m, f, now'') \<Rightarrow>
                       (Returned (Some \<lparr>rmap = m\<rparr>),
                        this\<lparr>pending_rmap := f, replies := \<lparr>rmap = m\<rparr>\<rparr>, now'')
                   | (other, f, now'') \<Rightarrow> (passed_on other, this\<lparr>pending_rmap := f\<rparr>, now''))
              | (timeout, now') \<Rightarrow> (Returned None, this, now')))
      else (Returned (Some (replies this)), this, now))"

text \<open>
  \<^verbatim>\<open>
  ReplyMap& get() {
      using namespace std::chrono;
      while(true) {
          if(auto rmap = wait(5min)) {
              return *rmap;
          }
      }
  }
  \<close>
  The loop has no bound: where it never ends, the function has no value. Next to the
  result, the function gives the calls of \<^verbatim>\<open>wait\<close> that the loop made, each with the instant at
  which it started and the duration it was given.
\<close>

definition five_min :: nat where
  "five_min = 5 * 60"

type_synonym poll = "nat \<times> nat"

partial_function (option) QueryResults_get_loop ::
  "timeline \<Rightarrow> QueryResults \<Rightarrow> nat \<Rightarrow> poll list \<Rightarrow>
   (ReplyMap outcome \<times> QueryResults \<times> nat \<times> poll list) option" where
  "QueryResults_get_loop hist this now polls =
     (case wait hist this now five_min of
        (Returned (Some r), this', now') \<Rightarrow>
          Some (Returned r, this', now', polls @ [(now, five_min)])
      | (Returned None, this', now') \<Rightarrow>
          QueryResults_get_loop hist this' now' (polls @ [(now, five_min)])
      | (other, this', now') \<Rightarrow>
          Some (passed_on other, this', now', polls @ [(now, five_min)]))"

definition QueryResults_get ::
  "timeline \<Rightarrow> QueryResults \<Rightarrow> nat \<Rightarrow>
   (ReplyMap outcome \<times> QueryResults \<times> nat \<times> poll list) option" where
  "QueryResults_get hist this now = QueryResults_get_loop hist this now []"

section \<open>RPC header framing (derecho/rpc\_utils.h)\<close>

subsection \<open>Bytes in memory\<close>

type_synonym byte = "8 word"

datatype byte_order = Little_endian | Big_endian

text \<open>The bytes of an unsigned integer, least significant first, and the host's layout of
  an object of \<open>n\<close> bytes: that order on a little-endian host, the reverse on a big-endian
  one.\<close>

definition le_bytes :: "nat \<Rightarrow> 'a::len word \<Rightarrow> byte list" where
  "le_bytes n w = map (\<lambda>i. ucast (drop_bit (8 * i) w)) [0..<n]"

definition store :: "byte_order \<Rightarrow> nat \<Rightarrow> 'a::len word \<Rightarrow> byte list" where
  "store bo n w = (case bo of Little_endian \<Rightarrow> le_bytes n w | Big_endian \<Rightarrow> rev (le_bytes n w))"

fun of_le_bytes :: "byte list \<Rightarrow> 'a::len word" where
  "of_le_bytes [] = 0"
| "of_le_bytes (b # bs) = ucast b OR push_bit 8 (of_le_bytes bs)"

definition load :: "byte_order \<Rightarrow> byte list \<Rightarrow> 'a::len word" where
  "load bo bs = (case bo of Little_endian \<Rightarrow> of_le_bytes bs | Big_endian \<Rightarrow> of_le_bytes (rev bs))"

text \<open>A buffer is the list of its bytes; a read or a write that leaves the buffer has no
  value (in C++ it is undefined behaviour).\<close>

definition write_at :: "byte list \<Rightarrow> nat \<Rightarrow> byte list \<Rightarrow> byte list option" where
  "write_at buf off bs =
     (if off + length bs \<le> length buf
      then Some (take off buf @ bs @ drop (off + length bs) buf) else None)"

definition read_at :: "byte list \<Rightarrow> nat \<Rightarrow> nat \<Rightarrow> byte list option" where
  "read_at buf off n = (if off + n \<le> length buf then Some (take n (drop off buf)) else None)"

text \<open>
  \<^verbatim>\<open>
  struct Opcode {
      using t = unsigned long long;
      t id;
      ...
  };
  \<close>
  The member \<^verbatim>\<open>id\<close> is \<open>opcode_id\<close> here.
\<close>

record Opcode =
  opcode_id :: "64 word"

text \<open>The sizes of the three header fields on the 64-bit platforms the library runs on:
  \<^verbatim>\<open>std::size_t\<close> and \<^verbatim>\<open>unsigned long long\<close> take eight bytes, \<^verbatim>\<open>uint32_t\<close> four.\<close>

definition sizeof_size_t :: nat where
  "sizeof_size_t = 8"

definition sizeof_Opcode :: nat where
  "sizeof_Opcode = 8"

definition sizeof_node_id_t :: nat where
  "sizeof_node_id_t = 4"

text \<open>
  \<^verbatim>\<open>
  inline std::size_t header_space() {
      return sizeof(std::size_t) + sizeof(Opcode) + sizeof(node_id_t);
  }
  \<close>
\<close>

definition header_space :: nat where
  "header_space = sizeof_size_t + sizeof_Opcode + sizeof_node_id_t"

text \<open>
  \<^verbatim>\<open>
  inline void populate_header(char* reply_buf, const std::size_t& payload_size,
                              const Opcode& op, const node_id_t& from) {
      ((std::size_t*)reply_buf)[0] = payload_size;           // size
      ((Opcode*)(sizeof(std::size_t) + reply_buf))[0] = op;  // what
      ((node_id_t*)(sizeof(std::size_t) + sizeof(Opcode) + reply_buf))[0] = from;  // from
  }
  \<close>
  The buffer is the memory \<^verbatim>\<open>reply_buf\<close> points to; each store writes the object in the host's
  byte order.
\<close>

definition populate_header ::
  "byte_order \<Rightarrow> byte list \<Rightarrow> 64 word \<Rightarrow> Opcode \<Rightarrow> 32 word \<Rightarrow> byte list option" where
  "populate_header bo reply_buf payload_size op from =
     (case write_at reply_buf 0 (store bo sizeof_size_t payload_size) of
        None \<Rightarrow> None
      | Some buf1 \<Rightarrow>
          (case write_at buf1 sizeof_size_t (store bo sizeof_Opcode (opcode_id op)) of
             None \<Rightarrow> None
           | Some buf2 \<Rightarrow>
               write_at buf2 (sizeof_size_t + sizeof_Opcode) (store bo sizeof_node_id_t from)))"

text \<open>
  \<^verbatim>\<open>
  inline void retrieve_header(mutils::DeserializationManager* dsm, char const* const reply_buf,
                              std::size_t& payload_size, Opcode& op, node_id_t& from) {
      payload_size = ((std::size_t const* const)reply_buf)[0];
      op = ((Opcode const* const)(sizeof(std::size_t) + reply_buf))[0];
      from = ((node_id_t const* const)(sizeof(std::size_t) + sizeof(Opcode) + reply_buf))[0];
  }
  \<close>
  The three output parameters are the result; \<^verbatim>\<open>dsm\<close> is not used.
\<close>

definition retrieve_header :: "byte_order \<Rightarrow> byte list \<Rightarrow> (64 word \<times> Opcode \<times> 32 word) option" where
  "retrieve_header bo reply_buf =
     (case read_at reply_buf 0 sizeof_size_t of
        None \<Rightarrow> None
      | Some b1 \<Rightarrow>
          (case read_at reply_buf sizeof_size_t sizeof_Opcode of
             None \<Rightarrow> None
           | Some b2 \<Rightarrow>
               (case read_at reply_buf (sizeof_size_t + sizeof_Opcode) sizeof_node_id_t of
                  None \<Rightarrow> None
                | Some b3 \<Rightarrow> Some (load bo b1, \<lparr>opcode_id = load bo b2\<rparr>, load bo b3))))"

section \<open>RDMA memory regions (rdma::MemoryRegion)\<close>

type_synonym size_t = "64 word"
type_synonym pointer = "64 word"

text \<open>\<^verbatim>\<open>std::to_string\<close> of an unsigned integer: its decimal digits.\<close>

fun to_string :: "nat \<Rightarrow> string" where
  "to_string n =
     (if n < 10 then [''0123456789'' ! n]
      else to_string (n div 10) @ [''0123456789'' ! (n mod 10)])"

declare to_string.simps [simp del]

datatype rdma_exception = RDMAConnectionRemoved string | RDMAConnectionBroken string

text \<open>
  How a call on a memory region ends: it returns, it throws, an \<^verbatim>\<open>assert\<close> fails, one of
  the \<^verbatim>\<open>CRASH\<close> macros stops the process with a message, or a registration is still being
  retried when the provider's answers end.
\<close>

datatype 'r rdma_outcome =
    Completed 'r
  | Raised rdma_exception
  | Assert_failure
  | Crash string
  | Retrying

text \<open>
  The arguments of \<^verbatim>\<open>RDMAConnection::write_remote\<close>, as \<^verbatim>\<open>MemoryRegion::write_remote\<close> passes
  them: the one-sided write that is issued.
\<close>

record remote_write =
  local_addr :: pointer
  remote_addr :: pointer
  write_size :: size_t
  write_with_completion :: bool
  rkey :: "64 word"
  lkey :: "64 word"

text \<open>
  Modelled from the spec: the class \<^verbatim>\<open>RDMAConnection\<close> (section 4.1, Connection), declared in
  a header that is not among the sources. It carries the \<^verbatim>\<open>is_broken\<close> flag; what the
  transport answers to a write and to a sync is a parameter of the model.
\<close>

record RDMAConnection =
  is_broken :: bool
  transport_write :: "remote_write \<Rightarrow> bool"
  transport_sync :: bool

text \<open>
  The members of \<^verbatim>\<open>MemoryRegion\<close> that the source file uses (the class is declared in
  \<^verbatim>\<open>memory_region.hpp\<close>, which is not among the sources). \<^verbatim>\<open>rdma_connection\<close> is a
  \<^verbatim>\<open>std::weak_ptr\<close>: the field holds what \<^verbatim>\<open>lock()\<close> yields, \<open>None\<close> once the manager has
  dropped the connection. The member \<^verbatim>\<open>size\<close> is \<open>size_m\<close> here.
\<close>

record MemoryRegion =
  remote_id :: "32 word"
  rdma_connection :: "RDMAConnection option"
  send_buf :: pointer
  recv_buf :: pointer
  size_m :: size_t
  write_mr_registered :: bool
  read_mr_registered :: bool
  mr_lrkey :: "64 word"
  mr_lwkey :: "64 word"
  mr_rwkey :: "64 word"
  remote_recv_buf :: pointer


text \<open>
  \<^verbatim>\<open>
  bool MemoryRegion::sync() const {
      std::shared_ptr<RDMAConnection> shared_rdma_connection = rdma_connection.lock();
      if(!shared_rdma_connection) {
          throw RDMAConnectionRemoved("RDMA Connection to " + std::to_string(remote_id) + " has been removed");
      }
      assert(shared_rdma_connection);
      return shared_rdma_connection->sync();
  }
  \<close>
\<close>

definition sync :: "MemoryRegion \<Rightarrow> bool rdma_outcome" where
  "sync this =
     (case rdma_connection this of
        None \<Rightarrow>
          Raised (RDMAConnectionRemoved
            (''RDMA Connection to '' @ to_string (unat (remote_id this)) @ '' has been removed''))
      | Some shared_rdma_connection \<Rightarrow> Completed (transport_sync shared_rdma_connection))"

text \<open>
  Modelled from the spec: \<^verbatim>\<open>htonll\<close> and \<^verbatim>\<open>ntohll\<close>, which no source file defines. Section 9:
  network byte order on the wire, native inside the process, the 64-bit swap performed by
  the implementer: on a little-endian host both reverse the eight bytes, on a big-endian
  host both are the identity.
\<close>

definition bswap_64 :: "64 word \<Rightarrow> 64 word" where
  "bswap_64 x = of_le_bytes (rev (le_bytes 8 x))"

definition htonll :: "byte_order \<Rightarrow> 64 word \<Rightarrow> 64 word" where
  "htonll bo x = (case bo of Little_endian \<Rightarrow> bswap_64 x | Big_endian \<Rightarrow> x)"

definition ntohll :: "byte_order \<Rightarrow> 64 word \<Rightarrow> 64 word" where
  "ntohll bo x = (case bo of Little_endian \<Rightarrow> bswap_64 x | Big_endian \<Rightarrow> x)"

text \<open>
  Modelled from the spec: the struct \<^verbatim>\<open>MRConnectionData\<close> and \<^verbatim>\<open>tcp_exchange\<close>, declared in
  headers that are not among the sources. Section 6: the exchanged record is 16 bytes,
  \<^verbatim>\<open>u64 mr_key\<close> at offset 0 and \<^verbatim>\<open>u64 vaddr\<close> at offset 8; section 4.2: one send and one
  receive of the same record. \<^verbatim>\<open>tcp_exchange\<close> sends the bytes of the local record as they
  lie in memory and fills the remote record with the bytes received.
\<close>

record MRConnectionData =
  mr_key :: "64 word"
  vaddr :: "64 word"

definition bytes_of_MRConnectionData :: "byte_order \<Rightarrow> MRConnectionData \<Rightarrow> byte list" where
  "bytes_of_MRConnectionData bo d = store bo 8 (mr_key d) @ store bo 8 (vaddr d)"

definition MRConnectionData_of_bytes :: "byte_order \<Rightarrow> byte list \<Rightarrow> MRConnectionData" where
  "MRConnectionData_of_bytes bo bs =
     \<lparr>mr_key = load bo (take 8 bs), vaddr = load bo (take 8 (drop 8 bs))\<rparr>"

text \<open>
  Modelled from the spec: the macro \<^verbatim>\<open>FAIL_IF_NONZERO_RETRY_EAGAIN\<close>, which no source file
  defines. Section 4.2: a transient "resource temporarily unavailable" answer is retried
  indefinitely, any other failure is fatal. The list holds the provider's answers to the
  successive attempts (\<^verbatim>\<open>-FI_EAGAIN\<close> is \<open>-11\<close>).
\<close>

definition FI_EAGAIN :: int where
  "FI_EAGAIN = 11"

fun fail_if_nonzero_retry_eagain :: "int list \<Rightarrow> string \<Rightarrow> unit rdma_outcome" where
  "fail_if_nonzero_retry_eagain [] msg = Retrying"
| "fail_if_nonzero_retry_eagain (r # rs) msg =
     (if r = 0 then Completed ()
      else if r = - FI_EAGAIN then fail_if_nonzero_retry_eagain rs msg
      else Crash msg)"

text \<open>\<^verbatim>\<open>#define FI_KEY_NOTAVAIL ((uint64_t) -1)\<close> in libfabric.\<close>

definition FI_KEY_NOTAVAIL :: "64 word" where
  "FI_KEY_NOTAVAIL = - 1"

text \<open>
  What the constructor meets outside the object: the connection that the manager's weak
  handle yields, the provider's answers to the two registrations, the keys
  \<^verbatim>\<open>fi_mr_key\<close> returns, and the bytes \<^verbatim>\<open>tcp_exchange\<close> receives from the peer (\<open>None\<close> when
  the exchange fails).
\<close>

record environment =
  manager_get :: "RDMAConnection option"
  reg_write_answers :: "int list"
  reg_read_answers :: "int list"
  fi_mr_key_write :: "64 word"
  fi_mr_key_read :: "64 word"
  tcp_received :: "byte list option"

text \<open>
  \<^verbatim>\<open>
  MemoryRegion::MemoryRegion(node::node_id_t remote_id, char* send_buf, char* recv_buf, size_t size)
          : remote_id(remote_id),
            rdma_connection(RDMAConnectionManager::get(remote_id)),
            send_buf(send_buf),
            recv_buf(recv_buf) {
      std::shared_ptr<RDMAConnection> shared_rdma_connection = rdma_connection.lock();
      if(!shared_rdma_connection) { throw RDMAConnectionRemoved(...); }
      if(shared_rdma_connection->is_broken) { throw RDMAConnectionBroken(...); }
      FAIL_IF_NONZERO_RETRY_EAGAIN(fi_mr_reg(..., send_buf, size, ..., &this->write_mr, NULL),
              "register memory buffer for write", CRASH_ON_FAILURE);
      FAIL_IF_NONZERO_RETRY_EAGAIN(fi_mr_reg(..., recv_buf, size, ..., &this->read_mr, NULL),
              "register memory buffer for read", CRASH_ON_FAILURE);
      this->mr_lrkey = fi_mr_key(this->read_mr);
      if(this->mr_lrkey == FI_KEY_NOTAVAIL) { CRASH_WITH_MESSAGE("fail to get read memory key."); }
      this->mr_lwkey = fi_mr_key(this->write_mr);
      if(this->mr_lwkey == FI_KEY_NOTAVAIL) { CRASH_WITH_MESSAGE("fail to get write memory key."); }
      MRConnectionData local_data;
      MRConnectionData remote_data;
      local_data.mr_key = (uint64_t)htonll(this->mr_lrkey);
      local_data.vaddr = (uint64_t)htonll((uint64_t)this->recv_buf); // for pull mode
      FAIL_IF_ZERO(tcp_exchange(remote_id, local_data, remote_data),
              "exchange connection management info.",CRASH_ON_FAILURE);
      this->mr_rwkey = (uint64_t)ntohll(remote_data.mr_key);
      this->remote_recv_buf = (char*)ntohll(remote_data.vaddr);
  }
  \<close>
  The constructor starts from the object's storage as it was allocated and assigns the
  members named above; the member \<^verbatim>\<open>size\<close> is not among them, so it keeps whatever the
  storage held. The result is the object together with the bytes sent to the peer.
\<close>

definition MemoryRegion_ctor ::
  "byte_order \<Rightarrow> environment \<Rightarrow> MemoryRegion \<Rightarrow> 32 word \<Rightarrow> pointer \<Rightarrow> pointer \<Rightarrow> size_t \<Rightarrow>
   (MemoryRegion \<times> byte list) rdma_outcome" where
  "MemoryRegion_ctor bo env storage remote_id' send_buf' recv_buf' size' =
     (let this = storage\<lparr>remote_id := remote_id', rdma_connection := manager_get env,
                         send_buf := send_buf', recv_buf := recv_buf'\<rparr> in
      case rdma_connection this of
        None \<Rightarrow>
          Raised (RDMAConnectionRemoved
            (''RDMA Connection to '' @ to_string (unat remote_id') @ '' has been removed''))
      | Some shared_rdma_connection \<Rightarrow>
          if is_broken shared_rdma_connection
          then Raised (RDMAConnectionBroken
            (''RDMA Connection to '' @ to_string (unat remote_id') @ '' is broken''))
          else
            (case fail_if_nonzero_retry_eagain (reg_write_answers env)
                    ''register memory buffer for write'' of
               Completed _ \<Rightarrow>
                 (case fail_if_nonzero_retry_eagain (reg_read_answers env)
                         ''register memory buffer for read'' of
                    Completed _ \<Rightarrow>
                      (let this = this\<lparr>write_mr_registered := True, read_mr_registered := True,
                                       mr_lrkey := fi_mr_key_read env\<rparr> in
                       if mr_lrkey this = FI_KEY_NOTAVAIL
                       then Crash ''fail to get read memory key.''
                       else
                         (let this = this\<lparr>mr_lwkey := fi_mr_key_write env\<rparr> in
                          if mr_lwkey this = FI_KEY_NOTAVAIL
                          then Crash ''fail to get write memory key.''
                          else
                            (let local_data = \<lparr>mr_key = htonll bo (mr_lrkey this),
                                               vaddr = htonll bo (recv_buf this)\<rparr>;
                                 sent = bytes_of_MRConnectionData bo local_data in
                             case tcp_received env of
                               None \<Rightarrow> Crash ''exchange connection management info.''
                             | Some received \<Rightarrow>
                                 (let remote_data = MRConnectionData_of_bytes bo received in
                                  Completed
                                    (this\<lparr>mr_rwkey := ntohll bo (mr_key remote_data),
                                          remote_recv_buf := ntohll bo (vaddr remote_data)\<rparr>,
                                     sent)))))
                  | Raised x \<Rightarrow> Raised x
                  | Assert_failure \<Rightarrow> Assert_failure
                  | Crash msg \<Rightarrow> Crash msg
                  | Retrying \<Rightarrow> Retrying)
             | Raised x \<Rightarrow> Raised x
             | Assert_failure \<Rightarrow> Assert_failure
             | Crash msg \<Rightarrow> Crash msg
             | Retrying \<Rightarrow> Retrying))"

section \<open>The analysis of missed\_counters (applications/archive/missed\_counters.cpp)\<close>

text \<open>
  \<^verbatim>\<open>std::vector::operator[]\<close> does not check its index: an access outside the vector is
  undefined behaviour. The model stops there, with the index used and the size of the
  vector. \<^verbatim>\<open>size()\<close> is a \<^verbatim>\<open>size_t\<close>.
\<close>

datatype access_error = Out_of_bounds nat nat

definition vec_size :: "'a list \<Rightarrow> 64 word" where
  "vec_size v = of_nat (length v)"

definition at :: "'a list \<Rightarrow> 64 word \<Rightarrow> access_error + 'a" where
  "at v i = (if unat i < length v then Inr (v ! unat i) else Inl (Out_of_bounds (unat i) (length v)))"

definition assign :: "'a list \<Rightarrow> 64 word \<Rightarrow> 'a \<Rightarrow> access_error + 'a list" where
  "assign v i x =
     (if unat i < length v then Inr (v[unat i := x]) else Inl (Out_of_bounds (unat i) (length v)))"

lemma word_less_Suc: "i < n \<Longrightarrow> unat (i + 1) = Suc (unat i)" for i n :: "'a::len word"
  by unat_arith

lemma word_loop_measure:
  "i < n \<Longrightarrow> unat n - unat (i + 1) < unat n - unat i" for i n :: "'a::len word"
  by (simp add: word_less_Suc word_less_nat_alt)

text \<open>
  \<^verbatim>\<open>
  uint64_t logic_size = 1;
  for(uint64_t i = 1; i < received_msgs[my_rank].size(); i++) {
      if(received_msgs[my_rank][i] > received_msgs[my_rank][i - 1]) {
          logic_size++;
      } else
          break;
  }
  \<close>
\<close>

function logic_size_loop :: "64 word list \<Rightarrow> 64 word \<Rightarrow> 64 word \<Rightarrow> access_error + 64 word" where
  "logic_size_loop v i logic_size =
     (if i < vec_size v then
        (case at v i of
           Inl e \<Rightarrow> Inl e
         | Inr a \<Rightarrow>
             (case at v (i - 1) of
                Inl e \<Rightarrow> Inl e
              | Inr b \<Rightarrow>
                  if a > b then logic_size_loop v (i + 1) (logic_size + 1)
                  else Inr logic_size))
      else Inr logic_size)"
  by pat_completeness auto
termination
  by (relation "measure (\<lambda>(v, i, logic_size). unat (vec_size v) - unat i)")
    (simp_all add: word_loop_measure)

declare logic_size_loop.simps [simp del]

text \<open>
  \<^verbatim>\<open>
  uint64_t start_index = 0;
  for(uint64_t i = 0; i < logic_size; i++) {
      if(received_msgs[my_rank][i] > num_msgs / 2) {
          start_index = i;
          break;
      }
  }
  \<close>
  The function returns \<^verbatim>\<open>start_index\<close>: the index at the \<^verbatim>\<open>break\<close>, and 0, its initial value,
  when the loop ends without one.
\<close>

function start_index_loop ::
  "64 word list \<Rightarrow> 64 word \<Rightarrow> 64 word \<Rightarrow> 64 word \<Rightarrow> access_error + 64 word" where
  "start_index_loop v num_msgs i logic_size =
     (if i < logic_size then
        (case at v i of
           Inl e \<Rightarrow> Inl e
         | Inr a \<Rightarrow>
             if a > num_msgs div 2 then Inr i
             else start_index_loop v num_msgs (i + 1) logic_size)
      else Inr 0)"
  by pat_completeness auto
termination
  by (relation "measure (\<lambda>(v, num_msgs, i, logic_size). unat logic_size - unat i)")
    (simp_all add: word_loop_measure)

declare start_index_loop.simps [simp del]

text \<open>
  \<^verbatim>\<open>
  for(uint64_t j = start_index; j < logic_size; j++) {
      count_missed += received_msgs[my_rank][j] - received_msgs[my_rank][j - 1] - 1;
      if(received_msgs[my_rank][j] - received_msgs[my_rank][j - 1] - 1 > 0) {
          num_intervals_with_missed++;
      }
  }
  \<close>
\<close>

function count_loop ::
  "64 word list \<Rightarrow> 64 word \<Rightarrow> 64 word \<Rightarrow> 64 word \<Rightarrow> 64 word \<Rightarrow>
   access_error + 64 word \<times> 64 word" where
  "count_loop v j logic_size count_missed num_intervals_with_missed =
     (if j < logic_size then
        (case at v j of
           Inl e \<Rightarrow> Inl e
         | Inr a \<Rightarrow>
             (case at v (j - 1) of
                Inl e \<Rightarrow> Inl e
              | Inr b \<Rightarrow>
                  count_loop v (j + 1) logic_size (count_missed + (a - b - 1))
                    (if a - b - 1 > 0 then num_intervals_with_missed + 1
                     else num_intervals_with_missed)))
      else Inr (count_missed, num_intervals_with_missed))"
  by pat_completeness auto
termination
  by (relation "measure (\<lambda>(v, j, logic_size, c, n). unat logic_size - unat j)")
    (simp_all add: word_loop_measure)

declare count_loop.simps [simp del]

text \<open>
  The source runs the same steps on the local vector (lines 57 to 82) and, inside the
  loop over the other nodes, on each remote vector (lines 98 to 146): the logic size, the
  start index, the assignment
  \<^verbatim>\<open>received_msgs[i][start_index - 1] = num_msgs / 2;\<close>
  and the count. \<^verbatim>\<open>start_index - 1\<close> is a \<^verbatim>\<open>uint64_t\<close> difference: it wraps around. The
  function returns the vector as changed and the two counters.
\<close>

definition count_vector ::
  "64 word list \<Rightarrow> 64 word \<Rightarrow> 64 word \<Rightarrow> 64 word \<Rightarrow>
   access_error + 64 word list \<times> 64 word \<times> 64 word" where
  "count_vector v num_msgs count_missed num_intervals_with_missed =
     (case logic_size_loop v 1 1 of
        Inl e \<Rightarrow> Inl e
      | Inr logic_size \<Rightarrow>
          (case start_index_loop v num_msgs 0 logic_size of
             Inl e \<Rightarrow> Inl e
           | Inr start_index \<Rightarrow>
               (case assign v (start_index - 1) (num_msgs div 2) of
                  Inl e \<Rightarrow> Inl e
                | Inr v' \<Rightarrow>
                    (case count_loop v' start_index logic_size count_missed
                            num_intervals_with_missed of
                       Inl e \<Rightarrow> Inl e
                     | Inr (c, n) \<Rightarrow> Inr (v', c, n)))))"

text \<open>
  \<^verbatim>\<open>
  for(uint32_t i = 0; i < num_nodes; i++) {
      if(i == my_rank) {
          continue;
      }
      ...
  }
  \<close>
\<close>

function remote_loop ::
  "32 word \<Rightarrow> 64 word \<Rightarrow> 32 word \<Rightarrow> 64 word list list \<Rightarrow> 32 word \<Rightarrow> 64 word \<Rightarrow> 64 word \<Rightarrow>
   access_error + 64 word list list \<times> 64 word \<times> 64 word" where
  "remote_loop num_nodes num_msgs my_rank received_msgs i count_missed
       num_intervals_with_missed =
     (if i < num_nodes then
        (if i = my_rank
         then remote_loop num_nodes num_msgs my_rank received_msgs (i + 1) count_missed
                num_intervals_with_missed
         else
           (case at received_msgs (ucast i) of
              Inl e \<Rightarrow> Inl e
            | Inr v \<Rightarrow>
                (case count_vector v num_msgs count_missed num_intervals_with_missed of
                   Inl e \<Rightarrow> Inl e
                 | Inr (v', c, n) \<Rightarrow>
                     remote_loop num_nodes num_msgs my_rank
                       (received_msgs[unat i := v']) (i + 1) c n)))
      else Inr (received_msgs, count_missed, num_intervals_with_missed))"
  by pat_completeness auto
termination
  by (relation "measure (\<lambda>(num_nodes, num_msgs, my_rank, r, i, c, n). unat num_nodes - unat i)")
    (simp_all add: word_loop_measure)

declare remote_loop.simps [simp del]

text \<open>
  \<^verbatim>\<open>
  void print_partial_sums(uint32_t num_nodes, uint64_t num_msgs, uint32_t my_rank,
                          vector<vector<uint64_t>>& received_msgs)
  \<close>
  The result is the vectors as changed and the four numbers written to
  \<^verbatim>\<open>missed_results\<close>: the local count and number of intervals, then the remote ones.
\<close>

definition print_partial_sums ::
  "32 word \<Rightarrow> 64 word \<Rightarrow> 32 word \<Rightarrow> 64 word list list \<Rightarrow>
   access_error + 64 word list list \<times> (64 word \<times> 64 word \<times> 64 word \<times> 64 word)" where
  "print_partial_sums num_nodes num_msgs my_rank received_msgs =
     (case at received_msgs (ucast my_rank) of
        Inl e \<Rightarrow> Inl e
      | Inr v \<Rightarrow>
          (case count_vector v num_msgs 0 0 of
             Inl e \<Rightarrow> Inl e
           | Inr (v', count_local, intervals_local) \<Rightarrow>
               (case remote_loop num_nodes num_msgs my_rank
                       (received_msgs[unat my_rank := v']) 0 0 0 of
                  Inl e \<Rightarrow> Inl e
                | Inr (received_msgs', count_remote, intervals_remote) \<Rightarrow>
                    Inr (received_msgs',
                         (count_local, intervals_local, count_remote, intervals_remote)))))"

section \<open>Definitions for the proofs, and the scenarios of the specification\<close>

text \<open>The promises' shared states, read through the map of promises alone.\<close>

definition slot_of :: "(node_id_t \<rightharpoonup> 'a promise) \<Rightarrow> node_id_t \<Rightarrow> 'a result option" where
  "slot_of pp q = (case pp q of None \<Rightarrow> None | Some p \<Rightarrow> shared_state p)"

text \<open>
  What every call keeps true of a PendingResults object: a shared state is made ready only
  by \<^verbatim>\<open>set_value\<close> and \<^verbatim>\<open>set_exception\<close>, which insert the peer into
  \<^verbatim>\<open>responded_nodes\<close> first, and \<^verbatim>\<open>dest_nodes\<close> is filled only by \<^verbatim>\<open>fulfill_map\<close>, which
  sets \<^verbatim>\<open>map_fulfilled\<close> first.
\<close>

definition inv :: "'a PendingResults \<Rightarrow> bool" where
  "inv this \<longleftrightarrow>
     (\<forall>q. slot this q \<noteq> None \<longrightarrow> q \<in> responded_nodes this) \<and>
     (dest_nodes this \<noteq> {} \<longrightarrow> map_fulfilled this)"

text \<open>
  Scenario S4 of the specification, before peer 2 is removed: a call sent to peers 1, 2
  and 3; peer 1 replies with a value and peer 3 with a remote exception.
\<close>

definition scenario_S4 :: "nat pending_call list" where
  "scenario_S4 =
     [Fulfill_map [1, 2, 3], Set_value 1 10, Set_exception 3 (remote_exception_occurred 3)]"


text \<open>The reply map that the loop of \<^verbatim>\<open>fulfill_map\<close> builds from an empty one, and the map of
  promises it leaves when every future could be retrieved.\<close>

definition published :: "node_list_t \<Rightarrow> reply_map" where
  "published who = fold (\<lambda>e. emplace e (Refers_to e)) who []"

definition retrieve_all ::
  "node_list_t \<Rightarrow> (node_id_t \<rightharpoonup> 'a promise) \<Rightarrow> (node_id_t \<rightharpoonup> 'a promise)" where
  "retrieve_all who pp =
     (\<lambda>k. if k \<in> set who then Some ((subscript pp k)\<lparr>future_retrieved := True\<rparr>) else pp k)"

text \<open>Scenario S4 on the reader's side: the reply map published for peers 1, 2 and 3 has
  been fetched.\<close>

definition S4_query :: QueryResults where
  "S4_query =
     \<lparr>pending_rmap = No_map_state,
      replies = \<lparr>rmap = [(1, Refers_to 1), (2, Refers_to 2), (3, Refers_to 3)]\<rparr>\<rparr>"

text \<open>
  The usual call, \<^verbatim>\<open>get(nid)\<close> on the member \<^verbatim>\<open>replies\<close> of the QueryResults that is its own
  parent (the ReplyMap that \<^verbatim>\<open>wait\<close> and \<^verbatim>\<open>QueryResults::get\<close> hand out, on an object that was
  not moved): what the call assigns to \<^verbatim>\<open>rmap\<close> is assigned to \<^verbatim>\<open>replies.rmap\<close> of that object.
\<close>

definition get_on_replies ::
  "bool \<Rightarrow> 'a PendingResults \<Rightarrow> QueryResults \<Rightarrow> node_id_t \<Rightarrow> 'a outcome \<times> QueryResults" where
  "get_on_replies ndebug pr qr nid =
     (case ReplyMap_get ndebug pr (replies qr) qr nid of
        (r, this', parent') \<Rightarrow> (r, parent'\<lparr>replies := this'\<rparr>))"

text \<open>Network byte order: the eight bytes of a 64-bit value, most significant first.\<close>

definition network_bytes :: "64 word \<Rightarrow> byte list" where
  "network_bytes x = rev (le_bytes 8 x)"

text \<open>The bytes a constructor sends for a key and a receive-buffer address.\<close>

definition descriptor :: "byte_order \<Rightarrow> 64 word \<Rightarrow> pointer \<Rightarrow> byte list" where
  "descriptor bo key addr =
     bytes_of_MRConnectionData bo \<lparr>mr_key = htonll bo key, vaddr = htonll bo addr\<rparr>"

text \<open>An environment in which construction goes through: the connection is there and not
  broken, both registrations succeed in the end, and both keys are available.\<close>

definition cooperative :: "environment \<Rightarrow> bool" where
  "cooperative env \<longleftrightarrow>
     (case manager_get env of None \<Rightarrow> False | Some c \<Rightarrow> \<not> is_broken c) \<and>
     fail_if_nonzero_retry_eagain (reg_write_answers env) ''register memory buffer for write'' =
       Completed () \<and>
     fail_if_nonzero_retry_eagain (reg_read_answers env) ''register memory buffer for read'' =
       Completed () \<and>
     fi_mr_key_read env \<noteq> FI_KEY_NOTAVAIL \<and>
     fi_mr_key_write env \<noteq> FI_KEY_NOTAVAIL"


text \<open>The storage a constructor is given, before any member is assigned, and a host whose
  read key is \<open>key\<close>, whose first registration is retried once, and which receives the
  given bytes from its peer.\<close>

definition raw_storage :: MemoryRegion where
  "raw_storage =
     \<lparr>remote_id = 0, rdma_connection = None, send_buf = 0, recv_buf = 0, size_m = 0xDEAD,
      write_mr_registered = False, read_mr_registered = False,
      mr_lrkey = 0, mr_lwkey = 0, mr_rwkey = 0, remote_recv_buf = 0\<rparr>"

definition host_env :: "64 word \<Rightarrow> byte list \<Rightarrow> environment" where
  "host_env key received =
     \<lparr>manager_get =
        Some \<lparr>is_broken = False, transport_write = (\<lambda>w. True), transport_sync = True\<rparr>,
      reg_write_answers = [- 11, 0], reg_read_answers = [0],
      fi_mr_key_write = key + 1, fi_mr_key_read = key,
      tcp_received = Some received\<rparr>"

section \<open>Verified properties\<close>

subsection \<open>PendingResults\<close>

lemma slot_slot_of: "slot this q = slot_of (populated_promises this) q"
  by (simp add: slot_def slot_of_def)

lemma shared_state_subscript: "shared_state (subscript pp e) = slot_of pp e"
  by (simp add: subscript_def slot_of_def new_promise_def split: option.splits)

lemma slot_of_upd:
  "slot_of (pp(e \<mapsto> p)) q = (if q = e then shared_state p else slot_of pp q)"
  by (simp add: slot_of_def)

lemma slot_of_upd_subscript: "slot_of (pp(e \<mapsto> subscript pp e)) q = slot_of pp q"
  by (simp add: slot_of_def subscript_def new_promise_def split: option.splits)

lemma inv_new: "inv new_PendingResults"
  by (simp add: inv_def new_PendingResults_def slot_def)

lemma loop_slot_of: "fulfill_map_loop who to_add pp = (x, m, pp') \<Longrightarrow> slot_of pp' q = slot_of pp q"
proof (induction who arbitrary: to_add pp)
  case Nil
  then show ?case by simp
next
  case (Cons e who)
  show ?case
  proof (cases "future_retrieved (subscript pp e)")
    case True
    with Cons.prems have eq: "pp' = pp(e \<mapsto> subscript pp e)"
      by (auto simp: promise_get_future_def)
    show ?thesis
      unfolding eq by (rule slot_of_upd_subscript)
  next
    case False
    with Cons.prems have "fulfill_map_loop who (emplace e (Refers_to e) to_add)
        (pp(e \<mapsto> (subscript pp e)\<lparr>future_retrieved := True\<rparr>)) = (x, m, pp')"
      by (simp add: promise_get_future_def)
    from Cons.IH[OF this] have "slot_of pp' q =
        slot_of (pp(e \<mapsto> (subscript pp e)\<lparr>future_retrieved := True\<rparr>)) q" .
    also have "\<dots> = slot_of pp q"
      by (simp add: slot_of_upd shared_state_subscript)
    finally show ?thesis .
  qed
qed

lemma slot_fulfill_map: "slot (snd (fulfill_map this who)) q = slot this q"
proof -
  obtain x m pp' where l: "fulfill_map_loop who [] (populated_promises this) = (x, m, pp')"
    by (cases "fulfill_map_loop who [] (populated_promises this)") auto
  from loop_slot_of[OF l, of q] show ?thesis
    by (auto simp: fulfill_map_def slot_slot_of l Let_def promise_set_def split: option.splits sum.splits)
qed

lemma slot_respond_with:
  "slot (snd (respond_with this nid r)) q =
     (if q = nid \<and> slot this nid = None then Some r else slot this q)"
  by (auto simp: respond_with_def slot_slot_of slot_of_upd shared_state_subscript Let_def promise_set_def 
      split: option.splits sum.splits)


lemma responded_fulfill_map: "responded_nodes (snd (fulfill_map this who)) = responded_nodes this"
  by (auto simp: fulfill_map_def Let_def split: prod.splits option.splits sum.splits)

lemma responded_respond_with:
  "responded_nodes (snd (respond_with this nid r)) = insert nid (responded_nodes this)"
  by (auto simp: respond_with_def Let_def split: sum.splits)

lemma map_fulfilled_fulfill_map: "map_fulfilled (snd (fulfill_map this who))"
  by (auto simp: fulfill_map_def Let_def split: prod.splits option.splits sum.splits)

lemma dest_fulfill_map:
  "dest_nodes (snd (fulfill_map this who)) = dest_nodes this \<or>
   dest_nodes (snd (fulfill_map this who)) = dest_nodes this \<union> set who"
  by (auto simp: fulfill_map_def Let_def split: prod.splits option.splits sum.splits)

lemma dest_respond_with: "dest_nodes (snd (respond_with this nid r)) = dest_nodes this"
  by (auto simp: respond_with_def Let_def split: sum.splits)

lemma map_fulfilled_respond_with:
  "map_fulfilled (snd (respond_with this nid r)) = map_fulfilled this"
  by (auto simp: respond_with_def Let_def split: sum.splits)

lemma inv_fulfill_map: "inv this \<Longrightarrow> inv (snd (fulfill_map this who))"
  by (simp add: inv_def slot_fulfill_map responded_fulfill_map map_fulfilled_fulfill_map)

lemma inv_respond_with: "inv this \<Longrightarrow> inv (snd (respond_with this nid r))"
  by (simp add: inv_def slot_respond_with responded_respond_with dest_respond_with
      map_fulfilled_respond_with)

lemma inv_removed: "inv this \<Longrightarrow> inv (snd (set_exception_for_removed_node ndebug this nid))"
  by (simp add: set_exception_for_removed_node_def set_exception_def inv_respond_with)

lemma inv_call: "inv this \<Longrightarrow> inv (snd (call ndebug this c))"
  by (cases c) (simp_all add: inv_fulfill_map inv_respond_with inv_removed set_value_def
      set_exception_def)

lemma inv_run: "inv this \<Longrightarrow> inv (run ndebug this cs)"
  by (induction cs arbitrary: this) (simp_all add: inv_call)

lemma slot_call: "slot this q = Some r \<Longrightarrow> slot (snd (call ndebug this c)) q = Some r"
  by (cases c) (auto simp: slot_fulfill_map slot_respond_with set_value_def set_exception_def
      set_exception_for_removed_node_def)

lemma slot_run: "slot this q = Some r \<Longrightarrow> slot (run ndebug this cs) q = Some r"
  by (induction cs arbitrary: this) (simp_all add: slot_call)

lemma responded_call:
  "q \<in> responded_nodes this \<Longrightarrow> q \<in> responded_nodes (snd (call ndebug this c))"
  by (cases c) (simp_all add: responded_fulfill_map responded_respond_with set_value_def
      set_exception_def set_exception_for_removed_node_def)

lemma responded_run:
  "q \<in> responded_nodes this \<Longrightarrow> q \<in> responded_nodes (run ndebug this cs)"
  by (induction cs arbitrary: this) (simp_all add: responded_call)

lemma run_append: "run ndebug this (cs @ cs') = run ndebug (run ndebug this cs) cs'"
  by (induction cs arbitrary: this) simp_all

lemma respond_with_empty:
  "slot this nid = None \<Longrightarrow>
   respond_with this nid r =
     (Returned (),
      this\<lparr>responded_nodes := insert nid (responded_nodes this),
           populated_promises := (populated_promises this)
             (nid \<mapsto> (subscript (populated_promises this) nid)\<lparr>shared_state := Some r\<rparr>)\<rparr>)"
  by (auto simp: respond_with_def Let_def promise_set_def slot_slot_of shared_state_subscript
      split: option.splits)

lemma respond_with_ready:
  "slot this nid \<noteq> None \<Longrightarrow>
   respond_with this nid r =
     (Threw (future_error promise_already_satisfied),
      this\<lparr>responded_nodes := insert nid (responded_nodes this)\<rparr>)"
  by (auto simp: respond_with_def Let_def promise_set_def slot_def subscript_def map_upd_triv
      split: option.splits)

lemma removed_noop:
  "nid \<in> responded_nodes this \<Longrightarrow>
   snd (set_exception_for_removed_node ndebug this nid) = this"
  by (simp add: set_exception_for_removed_node_def)


lemma map_fulfilled_call:
  "map_fulfilled this \<Longrightarrow> map_fulfilled (snd (call ndebug this c))"
  by (cases c) (auto simp: map_fulfilled_fulfill_map map_fulfilled_respond_with set_value_def
      set_exception_def set_exception_for_removed_node_def)

lemma map_fulfilled_run:
  "map_fulfilled this \<Longrightarrow> map_fulfilled (run ndebug this cs)"
  by (induction cs arbitrary: this) (simp_all add: map_fulfilled_call)

lemma inv_reached: "inv (run ndebug new_PendingResults cs)"
  by (rule inv_run [OF inv_new])

text \<open>
  Claim C1. On every PendingResults object reached by calls from a new one, in either
  build: a peer \<open>p\<close> of the destination set that has not responded has an empty slot, and
  \<^verbatim>\<open>set_exception_for_removed_node(p)\<close> returns and resolves the slot to
  \<^verbatim>\<open>node_removed_from_group_exception{p}\<close>; whatever calls follow, the slot keeps that
  error and a further \<^verbatim>\<open>set_exception_for_removed_node(p)\<close> returns without changing the
  object (the removal surfaces once). A slot that holds a result keeps exactly that result
  through every later call, so no slot receives both a value and an error. After
  \<^verbatim>\<open>set_value(p, v)\<close>, and whatever calls follow it, \<^verbatim>\<open>set_exception_for_removed_node(p)\<close>
  leaves the object as it is.
\<close>

theorem removed_peer_resolves_once:
  fixes cs :: "'a pending_call list" and ndebug :: bool and p :: node_id_t
  defines "this \<equiv> run ndebug new_PendingResults cs"
  defines "gone \<equiv> Some (Exception (node_removed_from_group_exception p))"
  shows
    "(p \<in> dest_nodes this \<and> p \<notin> responded_nodes this \<longrightarrow>
        slot this p = None \<and>
        fst (set_exception_for_removed_node ndebug this p) = Returned () \<and>
        (\<forall>cs'. slot (run ndebug (snd (set_exception_for_removed_node ndebug this p)) cs') p = gone \<and>
           set_exception_for_removed_node ndebug
             (run ndebug (snd (set_exception_for_removed_node ndebug this p)) cs') p =
           (Returned (), run ndebug (snd (set_exception_for_removed_node ndebug this p)) cs'))) \<and>
     (\<forall>q r cs'. slot this q = Some r \<longrightarrow> slot (run ndebug this cs') q = Some r) \<and>
     (\<forall>v cs'. snd (set_exception_for_removed_node ndebug
                   (run ndebug (snd (set_value this p v)) cs') p) =
               run ndebug (snd (set_value this p v)) cs')"
proof (intro conjI impI allI)
  have i: "inv this"
    unfolding this_def by (rule inv_reached)
  { assume a: "p \<in> dest_nodes this \<and> p \<notin> responded_nodes this"
    with i show e: "slot this p = None"
      by (auto simp: inv_def)
    from a i have m: "map_fulfilled this"
      by (auto simp: inv_def)
    let ?x = "Exception (node_removed_from_group_exception p)"
    from a m have r: "set_exception_for_removed_node ndebug this p = respond_with this p ?x"
      by (simp add: set_exception_for_removed_node_def set_exception_def)
    show "fst (set_exception_for_removed_node ndebug this p) = Returned ()"
      by (simp add: r respond_with_empty [OF e])
    fix cs'
    let ?after = "run ndebug (snd (set_exception_for_removed_node ndebug this p)) cs'"
    have "slot (snd (set_exception_for_removed_node ndebug this p)) p = Some ?x"
      by (simp add: r slot_respond_with e)
    then show "slot ?after p = gone"
      unfolding gone_def by (rule slot_run)
    have "p \<in> responded_nodes (snd (set_exception_for_removed_node ndebug this p))"
      by (simp add: r responded_respond_with)
    then have 1: "p \<in> responded_nodes ?after"
      by (rule responded_run)
    have "map_fulfilled (snd (set_exception_for_removed_node ndebug this p))"
      by (simp add: r map_fulfilled_respond_with m)
    then have 2: "map_fulfilled ?after"
      by (rule map_fulfilled_run)
    from 1 2 show "set_exception_for_removed_node ndebug ?after p = (Returned (), ?after)"
      by (simp add: set_exception_for_removed_node_def) }
  { fix q r cs' assume "slot this q = Some r"
    then show "slot (run ndebug this cs') q = Some r"
      by (rule slot_run) }
  { fix v cs'
    have "p \<in> responded_nodes (snd (set_value this p v))"
      by (simp add: set_value_def responded_respond_with)
    then have "p \<in> responded_nodes (run ndebug (snd (set_value this p v)) cs')"
      by (rule responded_run)
    then show "snd (set_exception_for_removed_node ndebug
                   (run ndebug (snd (set_value this p v)) cs') p) =
               run ndebug (snd (set_value this p v)) cs'"
      by (rule removed_noop) }
qed

lemmas run_defs = fulfill_map_def respond_with_def set_value_def set_exception_def
  set_exception_for_removed_node_def new_PendingResults_def new_promise_def promise_set_def
  promise_get_future_def subscript_def slot_def Let_def


text \<open>Scenario S4: peer 2 is in the destination set, has not responded, and is removed.\<close>

theorem removed_peer_resolves_once_witness:
  "2 \<in> dest_nodes (run False new_PendingResults scenario_S4) \<and>
   2 \<notin> responded_nodes (run False new_PendingResults scenario_S4) \<and>
   slot (run False new_PendingResults scenario_S4) 2 = None \<and>
   set_exception_for_removed_node False (run False new_PendingResults scenario_S4) 2 =
     (Returned (),
      snd (set_exception_for_removed_node False (run False new_PendingResults scenario_S4) 2)) \<and>
   slot (snd (set_exception_for_removed_node False (run False new_PendingResults scenario_S4) 2)) 2 =
     Some (Exception (node_removed_from_group_exception 2)) \<and>
   slot (run False new_PendingResults scenario_S4) 1 = Some (Value 10) \<and>
   slot (run False new_PendingResults scenario_S4) 3 =
     Some (Exception (remote_exception_occurred 3))"
proof -
  let ?st = "run False new_PendingResults scenario_S4"
  have h: "2 \<in> dest_nodes ?st \<and> 2 \<notin> responded_nodes ?st"
    by (simp add: scenario_S4_def run_defs)
  have v: "slot ?st 1 = Some (Value 10) \<and>
           slot ?st 3 = Some (Exception (remote_exception_occurred 3))"
    by (simp add: scenario_S4_def run_defs)
  from removed_peer_resolves_once [where p = 2 and ndebug = False and cs = scenario_S4] h
  have "slot ?st 2 = None \<and>
        fst (set_exception_for_removed_node False ?st 2) = Returned () \<and>
        slot (run False (snd (set_exception_for_removed_node False ?st 2)) []) 2 =
          Some (Exception (node_removed_from_group_exception 2))"
    by blast
  with h v show ?thesis
    by (simp add: prod_eq_iff)
qed

text \<open>
  Claim C2, as stated, fails in a build with assertions: on a new object
  (\<^verbatim>\<open>map_fulfilled\<close> false) the call does not return as a no-op, it stops at
  \<^verbatim>\<open>assert(map_fulfilled)\<close>.
\<close>

theorem removed_node_call_counterexample:
  "\<not> map_fulfilled (new_PendingResults :: nat PendingResults) \<and>
   set_exception_for_removed_node False (new_PendingResults :: nat PendingResults) 1 =
     (Assertion_failed, new_PendingResults) \<and>
   set_exception_for_removed_node False (new_PendingResults :: nat PendingResults) 1 \<noteq>
     (Returned (), new_PendingResults)"
  by (simp add: set_exception_for_removed_node_def new_PendingResults_def)

text \<open>
  Claim C2, amended. On every PendingResults object reached by calls from a new one: when
  \<^verbatim>\<open>map_fulfilled\<close> is true, \<open>p\<close> is in \<^verbatim>\<open>dest_nodes\<close> and \<open>p\<close> is not in
  \<^verbatim>\<open>responded_nodes\<close>, the slot of \<open>p\<close> is empty and
  \<^verbatim>\<open>set_exception_for_removed_node(p)\<close> returns after inserting \<open>p\<close> into
  \<^verbatim>\<open>responded_nodes\<close> and installing \<^verbatim>\<open>node_removed_from_group_exception{p}\<close> on the slot;
  otherwise the object is left unchanged, and the call returns, except that with
  \<^verbatim>\<open>map_fulfilled\<close> false a build with assertions stops at the assertion.
\<close>

theorem removed_node_call:
  fixes cs :: "'a pending_call list" and ndebug :: bool and p :: node_id_t
  defines "this \<equiv> run ndebug new_PendingResults cs"
  shows
    "(map_fulfilled this \<and> p \<in> dest_nodes this \<and> p \<notin> responded_nodes this \<longrightarrow>
        slot this p = None \<and>
        set_exception_for_removed_node ndebug this p =
          (Returned (),
           this\<lparr>responded_nodes := insert p (responded_nodes this),
                populated_promises := (populated_promises this)
                  (p \<mapsto> (subscript (populated_promises this) p)
                     \<lparr>shared_state :=
                        Some (Exception (node_removed_from_group_exception p))\<rparr>)\<rparr>) \<and>
        slot (snd (set_exception_for_removed_node ndebug this p)) p =
          Some (Exception (node_removed_from_group_exception p))) \<and>
     (\<not> (map_fulfilled this \<and> p \<in> dest_nodes this \<and> p \<notin> responded_nodes this) \<longrightarrow>
        set_exception_for_removed_node ndebug this p =
          (if \<not> ndebug \<and> \<not> map_fulfilled this then Assertion_failed else Returned (), this))"
proof (intro conjI impI)
  have i: "inv this"
    unfolding this_def by (rule inv_reached)
  { assume a: "map_fulfilled this \<and> p \<in> dest_nodes this \<and> p \<notin> responded_nodes this"
    with i show e: "slot this p = None"
      by (auto simp: inv_def)
    let ?x = "Exception (node_removed_from_group_exception p)"
    from a have r: "set_exception_for_removed_node ndebug this p = respond_with this p ?x"
      by (simp add: set_exception_for_removed_node_def set_exception_def)
    show "set_exception_for_removed_node ndebug this p =
          (Returned (),
           this\<lparr>responded_nodes := insert p (responded_nodes this),
                populated_promises := (populated_promises this)
                  (p \<mapsto> (subscript (populated_promises this) p)\<lparr>shared_state := Some ?x\<rparr>)\<rparr>)"
      by (simp only: r respond_with_empty [OF e])
    show "slot (snd (set_exception_for_removed_node ndebug this p)) p = Some ?x"
      by (simp add: r slot_respond_with e) }
  { assume a: "\<not> (map_fulfilled this \<and> p \<in> dest_nodes this \<and> p \<notin> responded_nodes this)"
    from i have "\<not> map_fulfilled this \<Longrightarrow> p \<notin> dest_nodes this"
      by (auto simp: inv_def)
    with a show "set_exception_for_removed_node ndebug this p =
          (if \<not> ndebug \<and> \<not> map_fulfilled this then Assertion_failed else Returned (), this)"
      by (auto simp: set_exception_for_removed_node_def) }
qed

text \<open>Scenario S4: peer 2 meets the three conditions, peer 1 has responded.\<close>

theorem removed_node_call_witness:
  "map_fulfilled (run False new_PendingResults scenario_S4) \<and>
   2 \<in> dest_nodes (run False new_PendingResults scenario_S4) \<and>
   2 \<notin> responded_nodes (run False new_PendingResults scenario_S4) \<and>
   fst (set_exception_for_removed_node False (run False new_PendingResults scenario_S4) 2) =
     Returned () \<and>
   slot (snd (set_exception_for_removed_node False (run False new_PendingResults scenario_S4) 2)) 2 =
     Some (Exception (node_removed_from_group_exception 2)) \<and>
   1 \<in> responded_nodes (run False new_PendingResults scenario_S4) \<and>
   set_exception_for_removed_node False (run False new_PendingResults scenario_S4) 1 =
     (Returned (), run False new_PendingResults scenario_S4)"
proof -
  let ?st = "run False new_PendingResults scenario_S4"
  have h: "map_fulfilled ?st \<and> 2 \<in> dest_nodes ?st \<and> 2 \<notin> responded_nodes ?st"
    by (simp add: scenario_S4_def run_defs)
  have g: "1 \<in> responded_nodes ?st"
    by (simp add: scenario_S4_def run_defs)
  note inst = removed_node_call [where p = 2 and ndebug = False and cs = scenario_S4]
  from inst h have a: "slot (snd (set_exception_for_removed_node False ?st 2)) 2 =
      Some (Exception (node_removed_from_group_exception 2))"
    by blast
  from inst h have b: "fst (set_exception_for_removed_node False ?st 2) = Returned ()"
    by (metis fst_conv)
  from removed_node_call [where p = 1 and ndebug = False and cs = scenario_S4] g h
  have "set_exception_for_removed_node False ?st 1 = (Returned (), ?st)"
    by simp
  with h g a b show ?thesis
    by simp
qed

text \<open>
  Claim C10, as stated, fails: after \<^verbatim>\<open>set_value(1, 10)\<close> on a new object, a second
  \<^verbatim>\<open>set_value\<close> or \<^verbatim>\<open>set_exception\<close> for peer 1 throws and leaves the object exactly as
  it was, because peer 1 is in \<^verbatim>\<open>responded_nodes\<close> already.
\<close>

theorem repeated_response_counterexample:
  "slot (snd (set_value (new_PendingResults :: nat PendingResults) 1 10)) 1 \<noteq> None \<and>
   set_value (snd (set_value (new_PendingResults :: nat PendingResults) 1 10)) 1 20 =
     (Threw (future_error promise_already_satisfied),
      snd (set_value (new_PendingResults :: nat PendingResults) 1 10)) \<and>
   set_exception (snd (set_value (new_PendingResults :: nat PendingResults) 1 10)) 1
       (remote_exception_occurred 1) =
     (Threw (future_error promise_already_satisfied),
      snd (set_value (new_PendingResults :: nat PendingResults) 1 10))"
  by (simp add: run_defs)

text \<open>
  Claim C10, amended. For every PendingResults object and peer \<open>p\<close> whose slot is
  fulfilled, \<^verbatim>\<open>set_value(p, v)\<close> and \<^verbatim>\<open>set_exception(p, e)\<close> throw
  \<^verbatim>\<open>future_error(promise_already_satisfied)\<close> after the insertion of \<open>p\<close> into
  \<^verbatim>\<open>responded_nodes\<close>, which is the only change to the object. On every object reached by
  calls from a new one, \<open>p\<close> is in \<^verbatim>\<open>responded_nodes\<close> already whenever its slot is
  fulfilled, so there the failed call leaves the object unchanged.
\<close>

theorem repeated_response:
  fixes this :: "'a PendingResults" and cs :: "'a pending_call list" and ndebug :: bool
  defines "failed \<equiv> Threw (future_error promise_already_satisfied)"
  defines "reached \<equiv> run ndebug new_PendingResults cs"
  shows
    "(slot this p \<noteq> None \<longrightarrow>
        set_value this p v =
          (failed, this\<lparr>responded_nodes := insert p (responded_nodes this)\<rparr>) \<and>
        set_exception this p e =
          (failed, this\<lparr>responded_nodes := insert p (responded_nodes this)\<rparr>)) \<and>
     (slot reached p \<noteq> None \<longrightarrow>
        p \<in> responded_nodes reached \<and>
        set_value reached p v = (failed, reached) \<and>
        set_exception reached p e = (failed, reached))"
proof (intro conjI impI)
  { assume "slot this p \<noteq> None"
    then show "set_value this p v =
          (failed, this\<lparr>responded_nodes := insert p (responded_nodes this)\<rparr>)"
      and "set_exception this p e =
          (failed, this\<lparr>responded_nodes := insert p (responded_nodes this)\<rparr>)"
      by (simp_all add: set_value_def set_exception_def respond_with_ready failed_def) }
  { assume a: "slot reached p \<noteq> None"
    have "inv reached"
      unfolding reached_def by (rule inv_reached)
    with a show r: "p \<in> responded_nodes reached"
      by (simp add: inv_def)
    then have "reached\<lparr>responded_nodes := insert p (responded_nodes reached)\<rparr> = reached"
      by (simp add: insert_absorb)
    with a show "set_value reached p v = (failed, reached)"
      and "set_exception reached p e = (failed, reached)"
      by (simp_all add: set_value_def set_exception_def respond_with_ready failed_def) }
qed

text \<open>Scenario S4: peer 1 has replied, and replies again.\<close>

theorem repeated_response_witness:
  "slot (run False new_PendingResults scenario_S4) 1 \<noteq> None \<and>
   1 \<in> responded_nodes (run False new_PendingResults scenario_S4) \<and>
   set_value (run False new_PendingResults scenario_S4) 1 20 =
     (Threw (future_error promise_already_satisfied), run False new_PendingResults scenario_S4) \<and>
   set_exception (run False new_PendingResults scenario_S4) 1 (remote_exception_occurred 1) =
     (Threw (future_error promise_already_satisfied), run False new_PendingResults scenario_S4)"
proof -
  have h: "slot (run False new_PendingResults scenario_S4) 1 \<noteq> None"
    by (simp add: scenario_S4_def run_defs)
  from repeated_response [where this = "run False new_PendingResults scenario_S4" and p = 1
      and v = 20 and e = "remote_exception_occurred 1" and ndebug = False
      and cs = scenario_S4] h
  show ?thesis
    by blast
qed

lemma keys_emplace: "set (map fst (emplace k v m)) = insert k (set (map fst m))"
  by (induction k v m rule: emplace.induct) auto

lemma map_of_emplace:
  "k \<notin> set (map fst m) \<Longrightarrow> map_of (emplace k v m) = (map_of m)(k \<mapsto> v)"
  by (induction k v m rule: emplace.induct) (auto simp: fun_upd_twist)

lemma length_emplace: "k \<notin> set (map fst m) \<Longrightarrow> length (emplace k v m) = Suc (length m)"
  by (induction k v m rule: emplace.induct) auto

lemma sorted_emplace:
  "sorted_wrt (<) (map fst m) \<Longrightarrow> sorted_wrt (<) (map fst (emplace k v m))"
proof (induction k v m rule: emplace.induct)
  case (1 k v)
  then show ?case by simp
next
  case (2 k v k' v' m)
  have "\<forall>x\<in>set (map fst (emplace k v m)). k' < x" if "\<not> k < k'" "k \<noteq> k'"
    using that 2(2) by (auto simp only: keys_emplace sorted_wrt.simps list.map fst_conv)
  with 2 show ?case
    by auto
qed

lemma fold_emplace:
  assumes "distinct who" and "set who \<inter> set (map fst to_add) = {}"
  defines "m \<equiv> fold (\<lambda>e. emplace e (Refers_to e)) who to_add"
  shows "length m = length to_add + length who \<and>
         set (map fst m) = set (map fst to_add) \<union> set who \<and>
         (\<forall>e. map_of m e = (if e \<in> set who then Some (Refers_to e) else map_of to_add e))"
  using assms(1,2) unfolding m_def
proof (induction who arbitrary: to_add)
  case Nil
  then show ?case by simp
next
  case (Cons a who)
  from Cons.prems have n: "a \<notin> set (map fst to_add)" and d: "distinct who" and a: "a \<notin> set who"
    and i: "set who \<inter> set (map fst (emplace a (Refers_to a) to_add)) = {}"
    by (auto simp only: keys_emplace distinct.simps list.set)
  from Cons.IH [OF d i] a show ?case
    by (auto simp: keys_emplace length_emplace [OF n] map_of_emplace [OF n]
        simp del: set_map)
qed

lemma sorted_fold_emplace:
  "sorted_wrt (<) (map fst to_add) \<Longrightarrow>
   sorted_wrt (<) (map fst (fold (\<lambda>e. emplace e (Refers_to e)) who to_add))"
  by (induction who arbitrary: to_add) (simp_all add: sorted_emplace)

lemma loop_distinct:
  "distinct who \<Longrightarrow> \<forall>e\<in>set who. \<not> future_retrieved (subscript pp e) \<Longrightarrow>
   fulfill_map_loop who to_add pp =
     (None, fold (\<lambda>e. emplace e (Refers_to e)) who to_add, retrieve_all who pp)"
proof (induction who arbitrary: to_add pp)
  case Nil
  show ?case by (simp add: retrieve_all_def)
next
  case (Cons a who)
  let ?pp = "pp(a \<mapsto> (subscript pp a)\<lparr>future_retrieved := True\<rparr>)"
  from Cons.prems have d: "distinct who" and a: "a \<notin> set who"
    and f: "\<not> future_retrieved (subscript pp a)"
    by auto
  from Cons.prems a have "\<forall>e\<in>set who. \<not> future_retrieved (subscript ?pp e)"
    by (auto simp: subscript_def)
  from Cons.IH [OF d this]
  have "fulfill_map_loop who (emplace a (Refers_to a) to_add) ?pp =
     (None, fold (\<lambda>e. emplace e (Refers_to e)) who (emplace a (Refers_to a) to_add),
      retrieve_all who ?pp)" .
  moreover have "retrieve_all who ?pp = retrieve_all (a # who) pp"
    using a by (auto simp: retrieve_all_def subscript_def fun_eq_iff)
  ultimately show ?case
    using f by (simp add: promise_get_future_def)
qed


lemma subscript_retrieve_all:
  "e \<in> set who \<Longrightarrow>
   retrieve_all who pp e = Some ((subscript pp e)\<lparr>future_retrieved := True\<rparr>)"
  by (simp add: retrieve_all_def)

lemma published_length: "distinct who \<Longrightarrow> length (published who) = length who"
  using fold_emplace [of who "[]"] by (simp add: published_def)

lemma published_lookup:
  "distinct who \<Longrightarrow> e \<in> set who \<Longrightarrow> map_of (published who) e = Some (Refers_to e)"
  using fold_emplace [of who "[]"] by (simp add: published_def)

lemma published_keys:
  assumes "distinct who"
  shows "map fst (published who) = sort who"
proof -
  from fold_emplace [OF assms, of "[]"]
  have keys: "set (map fst (published who)) = set who"
    by (simp add: published_def)
  have "sorted_wrt (<) (map fst (published who))"
    unfolding published_def by (rule sorted_fold_emplace) simp
  then have "sorted (map fst (published who))" and "distinct (map fst (published who))"
    by (simp_all add: strict_sorted_iff)
  then show ?thesis
    using keys assms by (intro sorted_distinct_set_unique) simp_all
qed

lemma fulfill_map_distinct:
  assumes "distinct who"
    and "shared_state (pending_map this) = None"
    and "\<forall>e\<in>set who. \<not> future_retrieved (subscript (populated_promises this) e)"
  shows "fulfill_map this who =
     (Returned (),
      this\<lparr>map_fulfilled := True,
           populated_promises := retrieve_all who (populated_promises this),
           dest_nodes := dest_nodes this \<union> set who,
           pending_map := (pending_map this)\<lparr>shared_state := Some (Value (published who))\<rparr>\<rparr>)"
proof -
  have "fulfill_map_loop who [] (populated_promises this) =
      (None, published who, retrieve_all who (populated_promises this))"
    unfolding published_def using assms(1,3) by (rule loop_distinct)
  with assms(2) show ?thesis
    by (simp add: fulfill_map_def promise_set_def)
qed

text \<open>
  Claim C4, as stated for every object and every destination list, fails. A list that
  names a peer twice makes the second \<^verbatim>\<open>get_future\<close> on that peer's promise throw
  \<^verbatim>\<open>future_error(future_already_retrieved)\<close> before anything is published; and on an object
  whose map has been published already, \<^verbatim>\<open>pending_map.set_value\<close> throws
  \<^verbatim>\<open>future_error(promise_already_satisfied)\<close>.
\<close>

theorem fulfill_map_publishes_counterexample:
  "fst (fulfill_map (new_PendingResults :: nat PendingResults) [1, 1]) =
     Threw (future_error future_already_retrieved) \<and>
   shared_state (pending_map (snd (fulfill_map (new_PendingResults :: nat PendingResults) [1, 1]))) =
     None \<and>
   fst (fulfill_map (snd (fulfill_map (new_PendingResults :: nat PendingResults) [1])) [2]) =
     Threw (future_error promise_already_satisfied)"
  by (simp add: run_defs)

text \<open>
  Claim C4, amended. For every PendingResults object whose \<^verbatim>\<open>pending_map\<close> is not yet
  fulfilled and every destination list without repetitions whose peers' futures have not
  been retrieved (as on a new object), \<^verbatim>\<open>fulfill_map\<close> returns, sets \<^verbatim>\<open>map_fulfilled\<close>,
  adds the peers to \<^verbatim>\<open>dest_nodes\<close>, and publishes through \<^verbatim>\<open>pending_map\<close> a reply map
  with as many entries as the list, whose keys are the peers in ascending order, each
  holding the future of that peer's own promise; the promise keeps whatever result it
  already held.
\<close>

theorem fulfill_map_publishes:
  fixes this :: "'a PendingResults"
  assumes "distinct who"
    and "shared_state (pending_map this) = None"
    and "\<forall>e\<in>set who. \<not> future_retrieved (subscript (populated_promises this) e)"
  defines "after \<equiv> snd (fulfill_map this who)"
  shows "fst (fulfill_map this who) = Returned () \<and>
         map_fulfilled after \<and>
         dest_nodes after = dest_nodes this \<union> set who \<and>
         responded_nodes after = responded_nodes this \<and>
         shared_state (pending_map after) = Some (Value (published who)) \<and>
         length (published who) = length who \<and>
         map fst (published who) = sort who \<and>
         (\<forall>e\<in>set who. map_of (published who) e = Some (Refers_to e) \<and>
            (\<exists>p. populated_promises after e = Some p \<and> future_retrieved p \<and>
                 shared_state p = slot this e))"
proof -
  note r = fulfill_map_distinct [OF assms(1-3)]
  have pr: "\<exists>p. populated_promises after e = Some p \<and> future_retrieved p \<and>
      shared_state p = slot this e" if "e \<in> set who" for e
    using that
    by (simp add: after_def r subscript_retrieve_all slot_slot_of shared_state_subscript)
  show ?thesis
    using published_length [OF assms(1)] published_keys [OF assms(1)]
      published_lookup [OF assms(1)] pr
    by (simp add: after_def r)
qed

text \<open>A new object and the destination list 3, 1, 2.\<close>

theorem fulfill_map_publishes_witness:
  "distinct [3, 1, 2 :: node_id_t] \<and>
   shared_state (pending_map (new_PendingResults :: nat PendingResults)) = None \<and>
   fst (fulfill_map (new_PendingResults :: nat PendingResults) [3, 1, 2]) = Returned () \<and>
   map_fulfilled (snd (fulfill_map (new_PendingResults :: nat PendingResults) [3, 1, 2])) \<and>
   dest_nodes (snd (fulfill_map (new_PendingResults :: nat PendingResults) [3, 1, 2])) = {1, 2, 3} \<and>
   shared_state (pending_map (snd (fulfill_map (new_PendingResults :: nat PendingResults) [3, 1, 2]))) =
     Some (Value [(1, Refers_to 1), (2, Refers_to 2), (3, Refers_to 3)])"
proof -
  have h1: "distinct [3, 1, 2 :: node_id_t]"
    by simp
  have h2: "shared_state (pending_map (new_PendingResults :: nat PendingResults)) = None"
    by (simp add: new_PendingResults_def new_promise_def)
  have h3: "\<forall>e\<in>set [3, 1, 2 :: node_id_t].
      \<not> future_retrieved (subscript (populated_promises (new_PendingResults :: nat PendingResults)) e)"
    by (simp add: new_PendingResults_def new_promise_def subscript_def)
  have v: "shared_state (pending_map (snd (fulfill_map (new_PendingResults :: nat PendingResults) [3, 1, 2]))) =
     Some (Value [(1, Refers_to 1), (2, Refers_to 2), (3, Refers_to 3)])"
    by (simp add: run_defs)
  have d: "dest_nodes (new_PendingResults :: nat PendingResults) \<union> set [3, 1, 2] = {1, 2, 3}"
    by (auto simp: new_PendingResults_def)
  from fulfill_map_publishes [OF h1 h2 h3]
  have "fst (fulfill_map (new_PendingResults :: nat PendingResults) [3, 1, 2]) = Returned () \<and>
        map_fulfilled (snd (fulfill_map (new_PendingResults :: nat PendingResults) [3, 1, 2])) \<and>
        dest_nodes (snd (fulfill_map (new_PendingResults :: nat PendingResults) [3, 1, 2])) =
          dest_nodes (new_PendingResults :: nat PendingResults) \<union> set [3, 1, 2]"
    by blast
  with h1 h2 v d show ?thesis
    by (simp only:)
qed

subsection \<open>QueryResults\<close>

lemma map_of_assign_at:
  "map_of m k = Some f \<Longrightarrow> map_of (assign_at m k f') k = Some f'"
  by (induction m) (auto split: if_splits)

lemma length_assign_at: "length (assign_at m k f') = length m"
  by (induction m) auto

lemma future_get_Returned:
  "future_get pr f = (Returned v, f') \<Longrightarrow> f' = No_shared_state"
  by (auto simp: future_get_def split: future.splits option.splits result.splits)

lemma passed_on_not_Returned: "passed_on x \<noteq> Returned v" "Returned v \<noteq> passed_on x"
  by (cases x; simp)+

lemma ReplyMap_get_fetched:
  "ReplyMap_fetch ndebug pr this parent = (Returned (), this1, parent1) \<Longrightarrow>
   ReplyMap_get ndebug pr this parent nid =
     (if \<not> ndebug \<and> \<not> length (rmap this1) > 0 then (Assertion_failed, this1, parent1)
      else if \<not> ndebug \<and> count_rmap (rmap this1) nid = 0
      then (Assertion_failed, this1, parent1)
      else case map_of (rmap this1) nid of
             None \<Rightarrow> (Threw out_of_range, this1, parent1)
           | Some f \<Rightarrow>
               if \<not> ndebug \<and> \<not> future_valid f then (Assertion_failed, this1, parent1)
               else (fst (future_get pr f),
                     this1\<lparr>rmap := assign_at (rmap this1) nid (snd (future_get pr f))\<rparr>,
                     parent1))"
  by (simp add: ReplyMap_get_def Let_def split: option.splits prod.splits)

lemma ReplyMap_get_not_fetched:
  "ReplyMap_fetch ndebug pr this parent = (o1, this1, parent1) \<Longrightarrow> o1 \<noteq> Returned () \<Longrightarrow>
   ReplyMap_get ndebug pr this parent nid = (passed_on o1, this1, parent1)"
  by (cases o1) (simp_all add: ReplyMap_get_def)

lemma valid_after_get:
  assumes "ReplyMap_get ndebug pr this parent nid = (Returned v, this', parent')"
  shows "valid ndebug this' nid = Returned False"
proof -
  obtain o1 this1 parent1
    where f: "ReplyMap_fetch ndebug pr this parent = (o1, this1, parent1)"
    by (cases "ReplyMap_fetch ndebug pr this parent")
  let ?m = "rmap this1"
  have o1: "o1 = Returned ()"
  proof (rule ccontr)
    assume "o1 \<noteq> Returned ()"
    from ReplyMap_get_not_fetched [OF f this, of nid] assms show False
      by (simp add: passed_on_not_Returned)
  qed
  note u = ReplyMap_get_fetched [OF f [unfolded o1], of nid]
  from assms obtain g where g: "map_of ?m nid = Some g"
    unfolding u by (cases "map_of ?m nid") (simp_all split: if_splits)
  from assms have r: "fst (future_get pr g) = Returned v"
    and p: "this' = this1\<lparr>rmap := assign_at ?m nid (snd (future_get pr g))\<rparr>"
    unfolding u g by (simp_all split: if_splits)
  from r have g': "snd (future_get pr g) = No_shared_state"
    by (intro future_get_Returned [of pr g v]) (simp add: prod_eq_iff)
  from g have "?m \<noteq> []"
    by auto
  with map_of_assign_at [OF g, of No_shared_state] show ?thesis
    by (simp add: valid_def p g' count_rmap_def length_assign_at)
qed

lemma valid_after_get_on_replies:
  assumes "get_on_replies ndebug pr qr nid = (Returned v, qr')"
  shows "valid ndebug (replies qr') nid = Returned False"
proof -
  obtain r this' parent'
    where g: "ReplyMap_get ndebug pr (replies qr) qr nid = (r, this', parent')"
    by (cases "ReplyMap_get ndebug pr (replies qr) qr nid")
  with assms have "r = Returned v" and "replies qr' = this'"
    by (auto simp: get_on_replies_def)
  with valid_after_get [of ndebug pr "replies qr" qr nid v this' parent'] g show ?thesis
    by simp
qed

lemma valid_published:
  assumes "distinct who" and "nid \<in> set who"
  shows "valid ndebug \<lparr>rmap = published who\<rparr> nid = Returned True"
proof -
  from assms(2) have "length who > 0"
    by (cases who) auto
  with published_lookup [OF assms] published_length [OF assms(1)] show ?thesis
    by (simp add: valid_def count_rmap_def)
qed

lemma valid_cases:
  "valid ndebug this nid =
     (if rmap this = [] then Returned False
      else case map_of (rmap this) nid of
             None \<Rightarrow> if ndebug then Threw out_of_range else Assertion_failed
           | Some f \<Rightarrow> Returned (future_valid f))"
  by (auto simp: valid_def count_rmap_def split: option.splits)

text \<open>
  Claim C6, as stated, fails: after \<^verbatim>\<open>fulfill_map({1})\<close> the published map holds a future
  for peer 1, and \<^verbatim>\<open>valid(1)\<close> on that map is true in both builds, while the slot of peer 1
  is empty: no reply has arrived.
\<close>

theorem valid_counterexample:
  "shared_state (pending_map (snd (fulfill_map (new_PendingResults :: nat PendingResults) [1]))) =
     Some (Value [(1, Refers_to 1)]) \<and>
   slot (snd (fulfill_map (new_PendingResults :: nat PendingResults) [1])) 1 = None \<and>
   valid False \<lparr>rmap = [(1, Refers_to 1)]\<rparr> 1 = Returned True \<and>
   valid True \<lparr>rmap = [(1, Refers_to 1)]\<rparr> 1 = Returned True"
  by (simp add: run_defs valid_def count_rmap_def)

text \<open>
  Claim C6, amended. \<^verbatim>\<open>valid(nid)\<close> returns true if and only if the reply map is populated
  and the future it holds for \<open>nid\<close> still refers to a shared state, whether or not the
  reply has arrived: it is true for every peer of the map that \<^verbatim>\<open>fulfill_map\<close> publishes,
  and false once \<^verbatim>\<open>get(nid)\<close> has returned the reply, on the ReplyMap on which \<^verbatim>\<open>get\<close> was
  called, whichever QueryResults its \<^verbatim>\<open>parent\<close> refers to, and so on the member \<^verbatim>\<open>replies\<close> of
  a QueryResults that is its own parent. (This is stated for an empty map and for a map
  that holds \<open>nid\<close>; on a populated map without \<open>nid\<close> the call fails the assertion, or
  throws \<^verbatim>\<open>out_of_range\<close> under \<^verbatim>\<open>NDEBUG\<close>.)
\<close>

theorem valid_while_future_unconsumed:
  "(rmap this = [] \<or> nid \<in> fst ` set (rmap this) \<longrightarrow>
      valid ndebug this nid =
        Returned (rmap this \<noteq> [] \<and> (\<exists>f. map_of (rmap this) nid = Some f \<and> future_valid f))) \<and>
   (rmap this \<noteq> [] \<and> nid \<notin> fst ` set (rmap this) \<longrightarrow>
      valid ndebug this nid = (if ndebug then Threw out_of_range else Assertion_failed)) \<and>
   (distinct who \<and> nid \<in> set who \<longrightarrow>
      valid ndebug \<lparr>rmap = published who\<rparr> nid = Returned True) \<and>
   (ReplyMap_get ndebug pr that parent nid = (Returned v, that', parent') \<longrightarrow>
      valid ndebug that' nid = Returned False) \<and>
   (get_on_replies ndebug pr qr nid = (Returned v, qr') \<longrightarrow>
      valid ndebug (replies qr') nid = Returned False)"
proof (intro conjI impI)
  assume a: "rmap this = [] \<or> nid \<in> fst ` set (rmap this)"
  show "valid ndebug this nid =
        Returned (rmap this \<noteq> [] \<and> (\<exists>f. map_of (rmap this) nid = Some f \<and> future_valid f))"
  proof (cases "rmap this = []")
    case True
    then show ?thesis
      by (simp add: valid_cases)
  next
    case False
    with a obtain f where "map_of (rmap this) nid = Some f"
      by (cases "map_of (rmap this) nid") (simp_all add: map_of_eq_None_iff)
    with False show ?thesis
      by (simp add: valid_cases)
  qed
next
  assume a: "rmap this \<noteq> [] \<and> nid \<notin> fst ` set (rmap this)"
  then have "map_of (rmap this) nid = None"
    by (simp add: map_of_eq_None_iff)
  with a show "valid ndebug this nid = (if ndebug then Threw out_of_range else Assertion_failed)"
    by (simp add: valid_cases)
next
  assume "distinct who \<and> nid \<in> set who"
  then show "valid ndebug \<lparr>rmap = published who\<rparr> nid = Returned True"
    by (simp add: valid_published)
next
  assume "ReplyMap_get ndebug pr that parent nid = (Returned v, that', parent')"
  then show "valid ndebug that' nid = Returned False"
    by (rule valid_after_get)
next
  assume "get_on_replies ndebug pr qr nid = (Returned v, qr')"
  then show "valid ndebug (replies qr') nid = Returned False"
    by (rule valid_after_get_on_replies)
qed


lemmas query_defs = get_on_replies_def ReplyMap_get_def ReplyMap_fetch_def future_get_def
  map_fut_get_def valid_def count_rmap_def S4_query_def

text \<open>
  Scenario S4 on the reader's side: peer 2 has not replied, peer 1 has. The reply of peer 1
  is read from the member \<^verbatim>\<open>replies\<close> of a QueryResults that has fetched the map, and from
  a ReplyMap that is not the member \<^verbatim>\<open>replies\<close> of its parent: it fetches the map into its
  own \<^verbatim>\<open>rmap\<close>, and the \<^verbatim>\<open>replies\<close> of the parent stay empty.
\<close>

theorem valid_while_future_unconsumed_witness:
  "2 \<in> fst ` set (rmap (replies S4_query)) \<and>
   slot (run False new_PendingResults scenario_S4) 2 = None \<and>
   valid False (replies S4_query) 2 = Returned True \<and>
   slot (run False new_PendingResults scenario_S4) 1 = Some (Value 10) \<and>
   get_on_replies False (run False new_PendingResults scenario_S4) S4_query 1 =
     (Returned 10,
      S4_query\<lparr>replies := \<lparr>rmap = [(1, No_shared_state), (2, Refers_to 2), (3, Refers_to 3)]\<rparr>\<rparr>) \<and>
   valid False \<lparr>rmap = [(1, No_shared_state), (2, Refers_to 2), (3, Refers_to 3)]\<rparr> 1 =
     Returned False \<and>
   ReplyMap_get False (run False new_PendingResults scenario_S4) \<lparr>rmap = []\<rparr>
       new_QueryResults 1 =
     (Returned 10, \<lparr>rmap = [(1, No_shared_state), (2, Refers_to 2), (3, Refers_to 3)]\<rparr>,
      new_QueryResults\<lparr>pending_rmap := No_map_state\<rparr>) \<and>
   rmap (replies (new_QueryResults\<lparr>pending_rmap := No_map_state\<rparr>)) = []"
proof -
  let ?pr = "run False new_PendingResults scenario_S4"
  let ?read = "\<lparr>rmap = [(1, No_shared_state), (2, Refers_to 2), (3, Refers_to 3)]\<rparr>"
  let ?after = "S4_query\<lparr>replies := ?read\<rparr>"
  let ?left = "new_QueryResults\<lparr>pending_rmap := No_map_state\<rparr>"
  have h: "2 \<in> fst ` set (rmap (replies S4_query))"
    by (simp add: S4_query_def)
  have s: "slot ?pr 2 = None \<and> slot ?pr 1 = Some (Value 10)"
    by (simp add: scenario_S4_def run_defs)
  have g: "get_on_replies False ?pr S4_query 1 = (Returned 10, ?after)"
    by (simp add: scenario_S4_def run_defs query_defs)
  have k: "ReplyMap_get False ?pr \<lparr>rmap = []\<rparr> new_QueryResults 1 = (Returned 10, ?read, ?left)"
    by (simp add: scenario_S4_def run_defs query_defs new_QueryResults_def)
  have e: "rmap (replies ?left) = []"
    by (simp add: new_QueryResults_def)
  note inst = valid_while_future_unconsumed [where this = "replies S4_query" and nid = 2
      and ndebug = False]
  from inst [THEN conjunct1] h have a: "valid False (replies S4_query) 2 =
      Returned (rmap (replies S4_query) \<noteq> [] \<and>
        (\<exists>f. map_of (rmap (replies S4_query)) 2 = Some f \<and> future_valid f))"
    by (simp only: simp_thms)
  have b: "valid False (replies S4_query) 2 = Returned True"
    unfolding a by (simp add: S4_query_def)
  from valid_while_future_unconsumed [where ndebug = False and pr = ?pr and qr = S4_query
      and nid = 1 and v = 10 and qr' = ?after, THEN conjunct2, THEN conjunct2,
      THEN conjunct2, THEN conjunct2] g
  have "valid False (replies ?after) 1 = Returned False"
    by (simp only: simp_thms)
  then have c: "valid False ?read 1 = Returned False"
    by simp
  from valid_while_future_unconsumed [where ndebug = False and pr = ?pr
      and that = "\<lparr>rmap = []\<rparr>" and parent = new_QueryResults
      and nid = 1 and v = 10 and that' = ?read and parent' = ?left, THEN conjunct2,
      THEN conjunct2, THEN conjunct2, THEN conjunct1] k
  have "valid False ?read 1 = Returned False"
    by (simp only: simp_thms)
  from h s g b c k e show ?thesis
    by (simp only:)
qed

lemma wait_populated:
  "rmap (replies this) \<noteq> [] \<Longrightarrow>
   wait hist this now t = (Returned (Some (replies this)), this, now)"
  by (simp add: wait_def)

lemma wait_timeout:
  "rmap (replies this) = [] \<Longrightarrow> pending_rmap this = Pending_map_future \<Longrightarrow>
   \<forall>a r. hist = Ready_at a r \<longrightarrow> now + t < a \<Longrightarrow>
   wait hist this now t = (Returned None, this, now + t)"
  by (cases hist) (auto simp: wait_def wait_for_def)

lemma wait_ready:
  "rmap (replies this) = [] \<Longrightarrow> pending_rmap this = Pending_map_future \<Longrightarrow>
   hist = Ready_at a (Value m) \<Longrightarrow> a \<le> now + t \<Longrightarrow>
   wait hist this now t =
     (Returned (Some \<lparr>rmap = m\<rparr>),
      this\<lparr>pending_rmap := No_map_state, replies := \<lparr>rmap = m\<rparr>\<rparr>, max now a)"
  by (simp add: wait_def wait_for_def map_fut_get_at_def)

lemma wait_duration:
  "now \<le> snd (snd (wait hist this now t)) \<and> snd (snd (wait hist this now t)) \<le> now + t"
  by (auto simp: wait_def wait_for_def map_fut_get_at_def
      split: map_fut.splits timeline.splits result.splits)

lemma map_upt_Suc_shift:
  "map f [0..<Suc n] = f 0 # map (\<lambda>i. f (Suc i)) [0..<n]"
  by (simp add: upt_conv_Cons map_Suc_upt [symmetric] comp_def del: upt_Suc)

lemma polls_needed:
  assumes "now + 300 < (a::nat)"
  shows "(a - now - 1) div 300 = Suc ((a - (now + 300) - 1) div 300)"
proof -
  define d where "d = a - (now + 300) - 1"
  from assms have e: "a - now - 1 = d + 300"
    unfolding d_def by linarith
  have "(d + 300) div 300 = Suc (d div 300)"
    by simp
  then show ?thesis
    unfolding e d_def .
qed

lemma polls_one:
  assumes "(a::nat) \<le> now + 300"
  shows "(a - now - 1) div 300 = 0"
proof -
  from assms have "a - now - 1 < 300"
    by linarith
  then show ?thesis
    by (rule div_less)
qed

lemma get_loop_ready:
  "rmap (replies this) = [] \<Longrightarrow> pending_rmap this = Pending_map_future \<Longrightarrow>
   QueryResults_get_loop (Ready_at a (Value m)) this now polls =
     Some (Returned \<lparr>rmap = m\<rparr>,
           this\<lparr>pending_rmap := No_map_state, replies := \<lparr>rmap = m\<rparr>\<rparr>, max now a,
           polls @ map (\<lambda>i. (now + i * 300, 300)) [0..<Suc ((a - now - 1) div 300)])"
proof (induction "a - now" arbitrary: now polls rule: less_induct)
  case less
  show ?case
  proof (cases "a \<le> now + 300")
    case True
    then have "(a - now - 1) div 300 = 0"
      by (rule polls_one)
    with True less.prems show ?thesis
      by (subst QueryResults_get_loop.simps) (simp add: wait_ready five_min_def)
  next
    case False
    then have "\<forall>a' r. Ready_at a (Value m) = Ready_at a' r \<longrightarrow> now + 300 < a'"
      by simp
    with less.prems
    have w: "wait (Ready_at a (Value m)) this now 300 = (Returned None, this, now + 300)"
      by (rule wait_timeout)
    from False have d: "a - (now + 300) < a - now"
      by linarith
    from False have n: "(a - now - 1) div 300 = Suc ((a - (now + 300) - 1) div 300)"
      by (intro polls_needed) linarith
    have "QueryResults_get_loop (Ready_at a (Value m)) this now polls =
        QueryResults_get_loop (Ready_at a (Value m)) this (now + 300) (polls @ [(now, 300)])"
      by (subst QueryResults_get_loop.simps) (simp add: w five_min_def)
    also from False have "\<dots> =
        Some (Returned \<lparr>rmap = m\<rparr>,
              this\<lparr>pending_rmap := No_map_state, replies := \<lparr>rmap = m\<rparr>\<rparr>, max now a,
              (polls @ [(now, 300)]) @
              map (\<lambda>i. (now + 300 + i * 300, 300)) [0..<Suc ((a - (now + 300) - 1) div 300)])"
      unfolding less.hyps [OF d less.prems] by (simp add: max_def)
    also have "(polls @ [(now, 300)]) @
        map (\<lambda>i. (now + 300 + i * 300, 300)) [0..<Suc ((a - (now + 300) - 1) div 300)] =
        polls @ map (\<lambda>i. (now + i * 300, 300)) [0..<Suc ((a - now - 1) div 300)]"
      unfolding n map_upt_Suc_shift [of _ "Suc ((a - (now + 300) - 1) div 300)"]
      by (simp add: add.assoc)
    finally show ?thesis .
  qed
qed

lemma get_loop_repoll:
  "rmap (replies this) = [] \<Longrightarrow> pending_rmap this = Pending_map_future \<Longrightarrow>
   \<forall>a r. hist = Ready_at a r \<longrightarrow> now + 300 < a \<Longrightarrow>
   QueryResults_get_loop hist this now polls =
     QueryResults_get_loop hist this (now + 300) (polls @ [(now, 300)])"
  by (subst QueryResults_get_loop.simps) (simp add: wait_timeout five_min_def)

lemma get_never_aux:
  assumes "QueryResults_get_loop hist this now polls = Some y"
  shows "\<not> (hist = Never_ready \<and> rmap (replies this) = [] \<and>
            pending_rmap this = Pending_map_future)"
proof (rule QueryResults_get_loop.raw_induct [OF _ assms])
  fix get hist this now polls and y :: "ReplyMap outcome \<times> QueryResults \<times> nat \<times> poll list"
  assume ih: "\<And>hist this now polls y. get hist this now polls = Some y \<Longrightarrow>
      \<not> (hist = Never_ready \<and> rmap (replies this) = [] \<and>
         pending_rmap this = Pending_map_future)"
    and step: "(case wait hist this now five_min of
        (Returned (Some r), this', now') \<Rightarrow>
          Some (Returned r, this', now', polls @ [(now, five_min)])
      | (Returned None, this', now') \<Rightarrow> get hist this' now' (polls @ [(now, five_min)])
      | (other, this', now') \<Rightarrow>
          Some (passed_on other, this', now', polls @ [(now, five_min)])) = Some y"
  show "\<not> (hist = Never_ready \<and> rmap (replies this) = [] \<and>
            pending_rmap this = Pending_map_future)"
  proof
    assume a: "hist = Never_ready \<and> rmap (replies this) = [] \<and>
      pending_rmap this = Pending_map_future"
    then have "wait hist this now five_min = (Returned None, this, now + five_min)"
      by (simp add: wait_timeout)
    with step have "get hist this (now + five_min) (polls @ [(now, five_min)]) = Some y"
      by simp
    from ih [OF this] a show False
      by simp
  qed
qed

lemma get_ready:
  "rmap (replies this) = [] \<Longrightarrow> pending_rmap this = Pending_map_future \<Longrightarrow>
   QueryResults_get (Ready_at a (Value m)) this now =
     Some (Returned \<lparr>rmap = m\<rparr>,
           this\<lparr>pending_rmap := No_map_state, replies := \<lparr>rmap = m\<rparr>\<rparr>, max now a,
           map (\<lambda>i. (now + i * 300, 300)) [0..<Suc ((a - now - 1) div 300)])"
  unfolding QueryResults_get_def by (subst get_loop_ready) simp_all

lemma get_never:
  "rmap (replies this) = [] \<Longrightarrow> pending_rmap this = Pending_map_future \<Longrightarrow>
   QueryResults_get Never_ready this now = None"
  unfolding QueryResults_get_def
  using get_never_aux [of Never_ready this now "[]"]
  by (cases "QueryResults_get_loop Never_ready this now []") auto

lemma get_populated:
  "rmap (replies this) \<noteq> [] \<Longrightarrow>
   QueryResults_get hist this now = Some (Returned (replies this), this, now, [(now, 300)])"
  unfolding QueryResults_get_def
  by (subst QueryResults_get_loop.simps) (simp add: wait_populated five_min_def)

text \<open>
  Claim C7, as stated, fails when the map that becomes available is empty (the map
  \<^verbatim>\<open>fulfill_map\<close> publishes for an empty destination list): the first \<^verbatim>\<open>wait\<close> returns it,
  and the next \<^verbatim>\<open>wait\<close> finds \<^verbatim>\<open>rmap.size() == 0\<close> again and calls \<^verbatim>\<open>wait_for\<close> on the future
  that \<^verbatim>\<open>get\<close> has released, instead of returning the map.
\<close>

theorem wait_and_get_counterexample:
  "shared_state (pending_map (snd (fulfill_map (new_PendingResults :: nat PendingResults) []))) =
     Some (Value []) \<and>
   wait (Ready_at 0 (Value [])) new_QueryResults 0 1 =
     (Returned (Some \<lparr>rmap = []\<rparr>), new_QueryResults\<lparr>pending_rmap := No_map_state\<rparr>, 0) \<and>
   wait (Ready_at 0 (Value [])) (new_QueryResults\<lparr>pending_rmap := No_map_state\<rparr>) 0 1 =
     (Undefined_behaviour, new_QueryResults\<lparr>pending_rmap := No_map_state\<rparr>, 0)"
  by (simp add: run_defs wait_def wait_for_def map_fut_get_at_def new_QueryResults_def)

text \<open>
  Claim C7, amended. \<^verbatim>\<open>wait(t)\<close> ends within \<open>t\<close> of its start. On an object that has not
  fetched the map, it returns \<^verbatim>\<open>nullptr\<close> after exactly \<open>t\<close> when the map is not available by
  then, and the map, at the instant it becomes available, otherwise. Once a non-empty map
  has been fetched, \<^verbatim>\<open>wait\<close> and \<^verbatim>\<open>get\<close> return it at once and leave the object as it is,
  \<^verbatim>\<open>get\<close> after one call of \<^verbatim>\<open>wait\<close> for 300 seconds. On an object that has not fetched the
  map, \<^verbatim>\<open>get\<close> returns the map at the instant it becomes available, however late, and it
  never returns when the map never becomes available. It polls \<^verbatim>\<open>wait\<close> in five-minute
  quanta: the calls of \<^verbatim>\<open>wait\<close> it has made when it returns the map that becomes available
  at instant \<open>a\<close> are the calls for 300 seconds that start at \<open>now\<close>, \<open>now + 300\<close>,
  \<open>now + 600\<close>, ..., the last of them the first whose 300 seconds reach \<open>a\<close>; and while the
  map is more than 300 seconds away, the loop is, after one call of \<^verbatim>\<open>wait\<close> for 300
  seconds, where it would be had it started 300 seconds later.
\<close>

theorem wait_and_get:
  "now \<le> snd (snd (wait hist this now t)) \<and>
   snd (snd (wait hist this now t)) \<le> now + t \<and>
   (rmap (replies this) = [] \<and> pending_rmap this = Pending_map_future \<longrightarrow>
      ((\<forall>a r. hist = Ready_at a r \<longrightarrow> now + t < a) \<longrightarrow>
         wait hist this now t = (Returned None, this, now + t)) \<and>
      (hist = Ready_at a (Value m) \<and> a \<le> now + t \<longrightarrow>
         wait hist this now t =
           (Returned (Some \<lparr>rmap = m\<rparr>),
            this\<lparr>pending_rmap := No_map_state, replies := \<lparr>rmap = m\<rparr>\<rparr>, max now a)) \<and>
      (hist = Ready_at a (Value m) \<longrightarrow>
         QueryResults_get hist this now =
           Some (Returned \<lparr>rmap = m\<rparr>,
                 this\<lparr>pending_rmap := No_map_state, replies := \<lparr>rmap = m\<rparr>\<rparr>, max now a,
                 map (\<lambda>i. (now + i * 300, 300)) [0..<Suc ((a - now - 1) div 300)])) \<and>
      (hist = Never_ready \<longrightarrow> QueryResults_get hist this now = None) \<and>
      ((\<forall>a r. hist = Ready_at a r \<longrightarrow> now + 300 < a) \<longrightarrow>
         QueryResults_get_loop hist this now polls =
           QueryResults_get_loop hist this (now + 300) (polls @ [(now, 300)]))) \<and>
   (rmap (replies this) \<noteq> [] \<longrightarrow>
      wait hist this now t = (Returned (Some (replies this)), this, now) \<and>
      QueryResults_get hist this now =
        Some (Returned (replies this), this, now, [(now, 300)]))"
proof (intro conjI impI)
  show "now \<le> snd (snd (wait hist this now t))" and "snd (snd (wait hist this now t)) \<le> now + t"
    using wait_duration [of now hist this t] by simp_all
next
  assume "rmap (replies this) = [] \<and> pending_rmap this = Pending_map_future"
    and "\<forall>a r. hist = Ready_at a r \<longrightarrow> now + t < a"
  then show "wait hist this now t = (Returned None, this, now + t)"
    by (simp add: wait_timeout)
next
  assume "rmap (replies this) = [] \<and> pending_rmap this = Pending_map_future"
    and "hist = Ready_at a (Value m) \<and> a \<le> now + t"
  then show "wait hist this now t =
           (Returned (Some \<lparr>rmap = m\<rparr>),
            this\<lparr>pending_rmap := No_map_state, replies := \<lparr>rmap = m\<rparr>\<rparr>, max now a)"
    by (simp add: wait_ready)
next
  assume "rmap (replies this) = [] \<and> pending_rmap this = Pending_map_future"
    and "hist = Ready_at a (Value m)"
  then show "QueryResults_get hist this now =
           Some (Returned \<lparr>rmap = m\<rparr>,
                 this\<lparr>pending_rmap := No_map_state, replies := \<lparr>rmap = m\<rparr>\<rparr>, max now a,
                 map (\<lambda>i. (now + i * 300, 300)) [0..<Suc ((a - now - 1) div 300)])"
    by (simp add: get_ready)
next
  assume "rmap (replies this) = [] \<and> pending_rmap this = Pending_map_future"
    and "hist = Never_ready"
  then show "QueryResults_get hist this now = None"
    by (simp add: get_never)
next
  assume "rmap (replies this) = [] \<and> pending_rmap this = Pending_map_future"
    and "\<forall>a r. hist = Ready_at a r \<longrightarrow> now + 300 < a"
  then show "QueryResults_get_loop hist this now polls =
           QueryResults_get_loop hist this (now + 300) (polls @ [(now, 300)])"
    by (intro get_loop_repoll) simp_all
next
  assume "rmap (replies this) \<noteq> []"
  then show "wait hist this now t = (Returned (Some (replies this)), this, now)"
    and "QueryResults_get hist this now =
        Some (Returned (replies this), this, now, [(now, 300)])"
    by (simp_all add: wait_populated get_populated)
qed

text \<open>
  A map for peer 1 that becomes available 700 seconds after the call was sent: \<^verbatim>\<open>get\<close>
  returns it at 700, after three calls of \<^verbatim>\<open>wait\<close> for 300 seconds, at 0, 300 and 600.
\<close>

theorem wait_and_get_witness:
  "rmap (replies new_QueryResults) = [] \<and>
   pending_rmap new_QueryResults = Pending_map_future \<and>
   wait (Ready_at 700 (Value [(1, Refers_to 1)])) new_QueryResults 0 60 =
     (Returned None, new_QueryResults, 60) \<and>
   wait (Ready_at 700 (Value [(1, Refers_to 1)])) new_QueryResults 650 60 =
     (Returned (Some \<lparr>rmap = [(1, Refers_to 1)]\<rparr>),
      new_QueryResults\<lparr>pending_rmap := No_map_state, replies := \<lparr>rmap = [(1, Refers_to 1)]\<rparr>\<rparr>,
      700) \<and>
   QueryResults_get (Ready_at 700 (Value [(1, Refers_to 1)])) new_QueryResults 0 =
     Some (Returned \<lparr>rmap = [(1, Refers_to 1)]\<rparr>,
           new_QueryResults\<lparr>pending_rmap := No_map_state, replies := \<lparr>rmap = [(1, Refers_to 1)]\<rparr>\<rparr>,
           700, [(0, 300), (300, 300), (600, 300)]) \<and>
   QueryResults_get Never_ready new_QueryResults 0 = None \<and>
   QueryResults_get_loop (Ready_at 700 (Value [(1, Refers_to 1)])) new_QueryResults 0 [] =
     QueryResults_get_loop (Ready_at 700 (Value [(1, Refers_to 1)])) new_QueryResults 300
       [(0, 300)] \<and>
   wait Never_ready
     (new_QueryResults\<lparr>pending_rmap := No_map_state, replies := \<lparr>rmap = [(1, Refers_to 1)]\<rparr>\<rparr>)
     700 60 =
     (Returned (Some \<lparr>rmap = [(1, Refers_to 1)]\<rparr>),
      new_QueryResults\<lparr>pending_rmap := No_map_state, replies := \<lparr>rmap = [(1, Refers_to 1)]\<rparr>\<rparr>,
      700) \<and>
   QueryResults_get Never_ready
     (new_QueryResults\<lparr>pending_rmap := No_map_state, replies := \<lparr>rmap = [(1, Refers_to 1)]\<rparr>\<rparr>)
     700 =
     Some (Returned \<lparr>rmap = [(1, Refers_to 1)]\<rparr>,
           new_QueryResults\<lparr>pending_rmap := No_map_state, replies := \<lparr>rmap = [(1, Refers_to 1)]\<rparr>\<rparr>,
           700, [(700, 300)])"
proof -
  let ?h = "Ready_at 700 (Value [(1, Refers_to 1)])"
  let ?got = "new_QueryResults\<lparr>pending_rmap := No_map_state, replies := \<lparr>rmap = [(1, Refers_to 1)]\<rparr>\<rparr>"
  have e: "rmap (replies new_QueryResults) = [] \<and>
      pending_rmap new_QueryResults = Pending_map_future"
    by (simp add: new_QueryResults_def)
  have l: "\<forall>a r. ?h = Ready_at a r \<longrightarrow> 0 + 60 < a"
    by simp
  from wait_and_get [where hist = ?h and this = new_QueryResults and now = 0 and t = 60] e l
  have 1: "wait ?h new_QueryResults 0 60 = (Returned None, new_QueryResults, 0 + 60)"
    by blast
  have "?h = Ready_at 700 (Value [(1, Refers_to 1)]) \<and> 700 \<le> (650::nat) + 60"
    by simp
  with wait_and_get [where hist = ?h and this = new_QueryResults and now = 650 and t = 60
      and a = 700 and m = "[(1, Refers_to 1)]"] e
  have 2: "wait ?h new_QueryResults 650 60 = (Returned (Some \<lparr>rmap = [(1, Refers_to 1)]\<rparr>), ?got, max 650 700)"
    by blast
  from wait_and_get [where hist = ?h and this = new_QueryResults and now = 0
      and a = 700 and m = "[(1, Refers_to 1)]"] e
  have "QueryResults_get ?h new_QueryResults 0 =
      Some (Returned \<lparr>rmap = [(1, Refers_to 1)]\<rparr>, ?got, max 0 700,
            map (\<lambda>i. (0 + i * 300, 300)) [0..<Suc ((700 - 0 - 1) div 300)])"
    by blast
  also have "[0..<Suc ((700 - 0 - 1) div 300)] = [0, 1, 2]"
    by (simp add: upt_rec)
  finally have 3: "QueryResults_get ?h new_QueryResults 0 =
      Some (Returned \<lparr>rmap = [(1, Refers_to 1)]\<rparr>, ?got, 700, [(0, 300), (300, 300), (600, 300)])"
    by simp
  from wait_and_get [where hist = Never_ready and this = new_QueryResults and now = 0] e
  have 4: "QueryResults_get Never_ready new_QueryResults 0 = None"
    by blast
  have "\<forall>a r. ?h = Ready_at a r \<longrightarrow> 0 + 300 < a"
    by simp
  with wait_and_get [where hist = ?h and this = new_QueryResults and now = 0
      and polls = "[]"] e
  have "QueryResults_get_loop ?h new_QueryResults 0 [] =
      QueryResults_get_loop ?h new_QueryResults (0 + 300) ([] @ [(0, 300)])"
    by blast
  then have 5: "QueryResults_get_loop ?h new_QueryResults 0 [] =
      QueryResults_get_loop ?h new_QueryResults 300 [(0, 300)]"
    by simp
  have p: "rmap (replies ?got) \<noteq> []"
    by simp
  with wait_and_get [where hist = Never_ready and this = ?got and now = 700 and t = 60]
  have "wait Never_ready ?got 700 60 = (Returned (Some (replies ?got)), ?got, 700)"
    by blast
  then have 6: "wait Never_ready ?got 700 60 = (Returned (Some \<lparr>rmap = [(1, Refers_to 1)]\<rparr>), ?got, 700)"
    by simp
  from p wait_and_get [where hist = Never_ready and this = ?got and now = 700]
  have "QueryResults_get Never_ready ?got 700 =
      Some (Returned (replies ?got), ?got, 700, [(700, 300)])"
    by blast
  then have 7: "QueryResults_get Never_ready ?got 700 =
      Some (Returned \<lparr>rmap = [(1, Refers_to 1)]\<rparr>, ?got, 700, [(700, 300)])"
    by simp
  from e 1 2 3 4 5 6 7 show ?thesis
    by simp
qed

subsection \<open>Header framing\<close>

lemma length_le_bytes: "length (le_bytes n w) = n"
  by (simp add: le_bytes_def)

lemma length_store: "length (store bo n w) = n"
  by (simp add: store_def length_le_bytes split: byte_order.splits)

lemma bit_of_le_bytes:
  "bit (of_le_bytes bs :: 'a::len word) k \<longleftrightarrow>
     k < LENGTH('a) \<and> k div 8 < length bs \<and> bit (bs ! (k div 8)) (k mod 8)"
proof (induction bs arbitrary: k)
  case Nil
  show ?case by simp
next
  case (Cons b bs)
  show ?case
  proof (cases "k < 8")
    case True
    then show ?thesis
      by (auto simp: bit_or_iff bit_ucast_iff bit_push_bit_iff dest: bit_imp_le_length)
  next
    case False
    then have "k div 8 = Suc ((k - 8) div 8)" and "k mod 8 = (k - 8) mod 8"
      by (simp_all add: le_div_geq le_mod_geq)
    with False Cons.IH [of "k - 8"] show ?thesis
      by (auto simp: bit_or_iff bit_ucast_iff bit_push_bit_iff dest: bit_imp_le_length)
  qed
qed

lemma of_le_bytes_le_bytes:
  fixes w :: "'a::len word"
  assumes "LENGTH('a) \<le> 8 * n"
  shows "of_le_bytes (le_bytes n w) = w"
proof (rule bit_word_eqI)
  fix k assume k: "k < LENGTH('a)"
  with assms have d: "k div 8 < n"
    by (simp add: less_mult_imp_div_less mult.commute order_less_le_trans)
  have "8 * (k div 8) + k mod 8 = k"
    by simp
  with k d show "bit (of_le_bytes (le_bytes n w) :: 'a word) k = bit w k"
    by (simp add: bit_of_le_bytes le_bytes_def bit_ucast_iff bit_drop_bit_eq)
qed

lemma load_store:
  fixes w :: "'a::len word"
  shows "LENGTH('a) \<le> 8 * n \<Longrightarrow> load bo (store bo n w) = (w :: 'a word)"
  by (cases bo) (simp_all add: load_def store_def of_le_bytes_le_bytes)

lemma read_write_same:
  "off + length bs \<le> length buf \<Longrightarrow> write_at buf off bs = Some buf' \<Longrightarrow>
   read_at buf' off (length bs) = Some bs"
  by (auto simp: write_at_def read_at_def)

lemma read_write_before:
  "write_at buf off bs = Some buf' \<Longrightarrow> off' + n \<le> off \<Longrightarrow>
   read_at buf' off' n = read_at buf off' n"
  by (auto simp: write_at_def read_at_def drop_take min_def split: if_splits)

lemma length_write_at: "write_at buf off bs = Some buf' \<Longrightarrow> length buf' = length buf"
  by (auto simp: write_at_def split: if_splits)

lemma drop_write_at:
  "write_at buf off bs = Some buf' \<Longrightarrow> off + length bs \<le> k \<Longrightarrow> drop k buf' = drop k buf"
  by (auto simp: write_at_def split: if_splits)

lemma write_at_Some:
  "off + length bs \<le> length buf \<Longrightarrow> \<exists>buf'. write_at buf off bs = Some buf'"
  by (simp add: write_at_def)

text \<open>
  Claim C5. For every triple \<open>(payload_size, opcode, from)\<close>, every host byte order and
  every buffer with room for the header, \<^verbatim>\<open>populate_header\<close> writes within the first
  \<^verbatim>\<open>header_space()\<close> bytes, leaving the body untouched, and \<^verbatim>\<open>retrieve_header\<close> on the
  result yields the original triple.
\<close>

theorem header_round_trip:
  assumes "header_space \<le> length reply_buf"
  shows "\<exists>buf. populate_header bo reply_buf payload_size op from = Some buf \<and>
           length buf = length reply_buf \<and>
           drop header_space buf = drop header_space reply_buf \<and>
           retrieve_header bo buf = Some (payload_size, op, from)"
proof -
  let ?s1 = "store bo sizeof_size_t payload_size"
  let ?s2 = "store bo sizeof_Opcode (opcode_id op)"
  let ?s3 = "store bo sizeof_node_id_t from"
  from assms obtain buf1 where w1: "write_at reply_buf 0 ?s1 = Some buf1"
    using write_at_Some [of 0 ?s1 reply_buf]
    by (auto simp: length_store header_space_def)
  note l1 = length_write_at [OF w1]
  from assms obtain buf2 where w2: "write_at buf1 sizeof_size_t ?s2 = Some buf2"
    using write_at_Some [of sizeof_size_t ?s2 buf1]
    by (auto simp: length_store header_space_def l1)
  note l2 = length_write_at [OF w2]
  from assms obtain buf3 where w3: "write_at buf2 (sizeof_size_t + sizeof_Opcode) ?s3 = Some buf3"
    using write_at_Some [of "sizeof_size_t + sizeof_Opcode" ?s3 buf2]
    by (auto simp: length_store header_space_def l1 l2)
  note l3 = length_write_at [OF w3]
  have p: "populate_header bo reply_buf payload_size op from = Some buf3"
    by (simp add: populate_header_def w1 w2 w3)
  have r3: "read_at buf3 (sizeof_size_t + sizeof_Opcode) sizeof_node_id_t = Some ?s3"
    using read_write_same [OF _ w3] assms
    by (simp add: length_store header_space_def l1 l2)
  have "read_at buf2 sizeof_size_t sizeof_Opcode = Some ?s2"
    using read_write_same [OF _ w2] assms
    by (simp add: length_store header_space_def l1)
  then have r2: "read_at buf3 sizeof_size_t sizeof_Opcode = Some ?s2"
    using read_write_before [OF w3, of sizeof_size_t sizeof_Opcode] by simp
  have "read_at buf1 0 sizeof_size_t = Some ?s1"
    using read_write_same [OF _ w1] assms
    by (simp add: length_store header_space_def)
  then have "read_at buf2 0 sizeof_size_t = Some ?s1"
    using read_write_before [OF w2, of 0 sizeof_size_t] by simp
  then have r1: "read_at buf3 0 sizeof_size_t = Some ?s1"
    using read_write_before [OF w3, of 0 sizeof_size_t] by simp
  have "load bo ?s1 = payload_size" and "load bo ?s2 = opcode_id op" and "load bo ?s3 = from"
    by (simp_all add: load_store sizeof_size_t_def sizeof_Opcode_def sizeof_node_id_t_def)
  then have r: "retrieve_header bo buf3 = Some (payload_size, op, from)"
    by (simp add: retrieve_header_def r1 r2 r3)
  have d: "drop header_space buf3 = drop header_space reply_buf"
    using drop_write_at [OF w3, of header_space] drop_write_at [OF w2, of header_space]
      drop_write_at [OF w1, of header_space]
    by (simp add: length_store header_space_def)
  from p r d l1 l2 l3 show ?thesis
    by simp
qed

text \<open>Scenario S5: size 1234, opcode 0xDEADBEEFCAFEBABE, sender 7.\<close>

theorem header_round_trip_witness:
  "header_space \<le> length (replicate 24 (0 :: byte)) \<and>
   (\<exists>buf. populate_header Little_endian (replicate 24 0) 1234
             \<lparr>opcode_id = 0xDEADBEEFCAFEBABE\<rparr> 7 = Some buf \<and>
          retrieve_header Little_endian buf = Some (1234, \<lparr>opcode_id = 0xDEADBEEFCAFEBABE\<rparr>, 7))"
proof -
  have h: "header_space \<le> length (replicate 24 (0 :: byte))"
    by (simp add: header_space_def sizeof_size_t_def sizeof_Opcode_def sizeof_node_id_t_def)
  from header_round_trip [OF h, of Little_endian 1234 "\<lparr>opcode_id = 0xDEADBEEFCAFEBABE\<rparr>" 7] h
  show ?thesis
    by blast
qed

subsection \<open>Memory regions\<close>

lemma le_bytes_of_le_bytes:
  assumes "length bs = n" and "8 * n \<le> LENGTH('a::len)"
  shows "le_bytes n (of_le_bytes bs :: 'a word) = bs"
proof (rule nth_equalityI)
  show "length (le_bytes n (of_le_bytes bs :: 'a word)) = length bs"
    by (simp add: length_le_bytes assms)
next
  fix i assume "i < length (le_bytes n (of_le_bytes bs :: 'a word))"
  then have i: "i < n"
    by (simp add: length_le_bytes)
  have "ucast (drop_bit (8 * i) (of_le_bytes bs :: 'a word)) = bs ! i"
  proof (rule bit_word_eqI)
    fix k assume "k < LENGTH(8)"
    then have k: "k < 8" by simp
    with i assms(2) have "8 * i + k < LENGTH('a)"
      by simp
    moreover from k have "(8 * i + k) div 8 = i" and "(8 * i + k) mod 8 = k"
      by simp_all
    ultimately show "bit (ucast (drop_bit (8 * i) (of_le_bytes bs :: 'a word)) :: byte) k =
        bit (bs ! i) k"
      using k i assms(1)
      by (simp add: bit_ucast_iff bit_drop_bit_eq bit_of_le_bytes)
  qed
  with i show "le_bytes n (of_le_bytes bs :: 'a word) ! i = bs ! i"
    by (simp add: le_bytes_def)
qed

lemma store_htonll: "store bo 8 (htonll bo x) = rev (le_bytes 8 x)"
  by (cases bo)
    (simp_all add: store_def htonll_def bswap_64_def le_bytes_of_le_bytes length_le_bytes)

lemma ntohll_load: "length bs = 8 \<Longrightarrow> ntohll bo (load bo bs) = of_le_bytes (rev bs)"
  by (cases bo)
    (simp_all add: load_def ntohll_def bswap_64_def le_bytes_of_le_bytes)

lemma ntohll_load_network: "ntohll bo (load bo (rev (le_bytes 8 x))) = x"
  by (simp add: ntohll_load length_le_bytes of_le_bytes_le_bytes)

text \<open>The constructor never assigns the member \<^verbatim>\<open>size\<close>: a constructed region holds there what
  the storage held, whatever the argument \<^verbatim>\<open>size\<close> was.\<close>

lemma ctor_Completed:
  assumes "MemoryRegion_ctor bo env storage rid sb rb sz = Completed (region, sent)"
  shows "sent = rev (le_bytes 8 (fi_mr_key_read env)) @ rev (le_bytes 8 rb) \<and>
         mr_lrkey region = fi_mr_key_read env \<and> recv_buf region = rb \<and>
         send_buf region = sb \<and> remote_id region = rid \<and> size_m region = size_m storage \<and>
         (\<exists>received. tcp_received env = Some received \<and>
            mr_rwkey region = ntohll bo (load bo (take 8 received)) \<and>
            remote_recv_buf region = ntohll bo (load bo (take 8 (drop 8 received))))"
  using assms
  by (auto simp: MemoryRegion_ctor_def Let_def bytes_of_MRConnectionData_def
      MRConnectionData_of_bytes_def store_htonll
      split: option.splits if_splits rdma_outcome.splits)

lemma descriptor_network: "descriptor bo key addr = rev (le_bytes 8 key) @ rev (le_bytes 8 addr)"
  by (simp add: descriptor_def bytes_of_MRConnectionData_def store_htonll)

lemma ctor_cooperative:
  assumes "cooperative env" and "tcp_received env = Some received"
  shows "MemoryRegion_ctor bo env storage rid sb rb sz =
     Completed
       (storage\<lparr>remote_id := rid, rdma_connection := manager_get env, send_buf := sb,
                recv_buf := rb, write_mr_registered := True, read_mr_registered := True,
                mr_lrkey := fi_mr_key_read env, mr_lwkey := fi_mr_key_write env,
                mr_rwkey := ntohll bo (load bo (take 8 received)),
                remote_recv_buf := ntohll bo (load bo (take 8 (drop 8 received)))\<rparr>,
        descriptor bo (fi_mr_key_read env) rb)"
  using assms
  by (auto simp: cooperative_def MemoryRegion_ctor_def Let_def descriptor_def
      MRConnectionData_of_bytes_def split: option.splits)

lemma take_descriptor:
  "take 8 (descriptor bo key addr) = rev (le_bytes 8 key)"
  "drop 8 (descriptor bo key addr) = rev (le_bytes 8 addr)"
  "length (descriptor bo key addr) = 16"
  "take 8 (drop 8 (descriptor bo key addr)) = rev (le_bytes 8 addr)"
  by (simp_all add: descriptor_network length_le_bytes)

text \<open>
  Claim C8. Two peers construct their memory regions, each in an environment in which
  construction goes through, each receiving what the other sends, on hosts of any byte
  orders. Then both constructors return; each sends one descriptor of 16 bytes, the
  read-buffer key at offset 0 and the address of the receive buffer at offset 8, both most
  significant byte first; and each stores as remote key and remote base address exactly
  the key and the address of its peer.
\<close>

theorem descriptor_exchange:
  assumes "cooperative env_a" and "cooperative env_b"
    and "tcp_received env_a = Some (descriptor bo_b (fi_mr_key_read env_b) recv_b)"
    and "tcp_received env_b = Some (descriptor bo_a (fi_mr_key_read env_a) recv_a)"
  shows "\<exists>region_a region_b sent_a sent_b.
     MemoryRegion_ctor bo_a env_a storage_a id_b send_a recv_a size_a =
       Completed (region_a, sent_a) \<and>
     MemoryRegion_ctor bo_b env_b storage_b id_a send_b recv_b size_b =
       Completed (region_b, sent_b) \<and>
     tcp_received env_a = Some sent_b \<and> tcp_received env_b = Some sent_a \<and>
     length sent_a = 16 \<and> length sent_b = 16 \<and>
     take 8 sent_a = network_bytes (mr_lrkey region_a) \<and>
     drop 8 sent_a = network_bytes (recv_buf region_a) \<and>
     take 8 sent_b = network_bytes (mr_lrkey region_b) \<and>
     drop 8 sent_b = network_bytes (recv_buf region_b) \<and>
     mr_lrkey region_a = fi_mr_key_read env_a \<and> recv_buf region_a = recv_a \<and>
     mr_lrkey region_b = fi_mr_key_read env_b \<and> recv_buf region_b = recv_b \<and>
     mr_rwkey region_a = mr_lrkey region_b \<and> remote_recv_buf region_a = recv_buf region_b \<and>
     mr_rwkey region_b = mr_lrkey region_a \<and> remote_recv_buf region_b = recv_buf region_a"
  by (simp add: ctor_cooperative [OF assms(1) assms(3)] ctor_cooperative [OF assms(2) assms(4)]
      assms(3,4) take_descriptor ntohll_load_network length_le_bytes network_bytes_def)


lemma host_env_cooperative: "key \<noteq> - 1 \<Longrightarrow> key + 1 \<noteq> - 1 \<Longrightarrow> cooperative (host_env key received)"
  by (simp add: cooperative_def host_env_def FI_KEY_NOTAVAIL_def FI_EAGAIN_def)

text \<open>A little-endian host with key 0x1122334455667788 and a big-endian host with key 9,
  both with their receive buffer at 0x20000.\<close>

theorem descriptor_exchange_witness:
  "\<exists>region_a region_b.
     MemoryRegion_ctor Little_endian
       (host_env 0x1122334455667788 [0, 0, 0, 0, 0, 0, 0, 9, 0, 0, 0, 0, 0, 2, 0, 0])
       raw_storage 2 0x10000 0x20000 4096 =
       Completed (region_a, [0x11, 0x22, 0x33, 0x44, 0x55, 0x66, 0x77, 0x88,
                             0, 0, 0, 0, 0, 2, 0, 0]) \<and>
     MemoryRegion_ctor Big_endian
       (host_env 9 [0x11, 0x22, 0x33, 0x44, 0x55, 0x66, 0x77, 0x88, 0, 0, 0, 0, 0, 2, 0, 0])
       raw_storage 1 0x10000 0x20000 4096 =
       Completed (region_b, [0, 0, 0, 0, 0, 0, 0, 9, 0, 0, 0, 0, 0, 2, 0, 0]) \<and>
     mr_rwkey region_a = 9 \<and> remote_recv_buf region_a = 0x20000 \<and>
     mr_rwkey region_b = 0x1122334455667788 \<and> remote_recv_buf region_b = 0x20000"
proof -
  let ?da = "[0x11, 0x22, 0x33, 0x44, 0x55, 0x66, 0x77, 0x88, 0, 0, 0, 0, 0, 2, 0, 0] :: byte list"
  let ?db = "[0, 0, 0, 0, 0, 0, 0, 9, 0, 0, 0, 0, 0, 2, 0, 0] :: byte list"
  let ?ea = "host_env 0x1122334455667788 ?db"
  let ?eb = "host_env 9 ?da"
  have k: "le_bytes 8 (0x1122334455667788 :: 64 word) = [0x88, 0x77, 0x66, 0x55, 0x44, 0x33, 0x22, 0x11]"
    "le_bytes 8 (9 :: 64 word) = [9, 0, 0, 0, 0, 0, 0, 0]"
    "le_bytes 8 (0x20000 :: 64 word) = [0, 0, 2, 0, 0, 0, 0, 0]"
    by code_simp+
  have da: "descriptor Little_endian 0x1122334455667788 0x20000 = ?da"
    and db: "descriptor Big_endian 9 0x20000 = ?db"
    by (simp_all add: descriptor_network k)
  have ka: "fi_mr_key_read ?ea = 0x1122334455667788" and kb: "fi_mr_key_read ?eb = 9"
    by (simp_all add: host_env_def)
  have ca: "cooperative ?ea" and cb: "cooperative ?eb"
    by (simp_all add: host_env_cooperative)
  have ra: "tcp_received ?ea = Some (descriptor Big_endian (fi_mr_key_read ?eb) 0x20000)"
    and rb: "tcp_received ?eb = Some (descriptor Little_endian (fi_mr_key_read ?ea) 0x20000)"
    unfolding ka kb da db by (simp_all add: host_env_def)
  from descriptor_exchange [OF ca cb ra rb, of raw_storage 2 "0x10000" 4096 raw_storage 1 "0x10000" 4096]
  obtain region_a region_b sent_a sent_b where
    "MemoryRegion_ctor Little_endian ?ea raw_storage 2 0x10000 0x20000 4096 =
       Completed (region_a, sent_a)"
    "MemoryRegion_ctor Big_endian ?eb raw_storage 1 0x10000 0x20000 4096 =
       Completed (region_b, sent_b)"
    "tcp_received ?ea = Some sent_b" "tcp_received ?eb = Some sent_a"
    "mr_lrkey region_a = fi_mr_key_read ?ea" "recv_buf region_a = 0x20000"
    "mr_lrkey region_b = fi_mr_key_read ?eb" "recv_buf region_b = 0x20000"
    "mr_rwkey region_a = mr_lrkey region_b" "remote_recv_buf region_a = recv_buf region_b"
    "mr_rwkey region_b = mr_lrkey region_a" "remote_recv_buf region_b = recv_buf region_a"
    by blast
  then show ?thesis
    by (intro exI [of _ region_a] exI [of _ region_b]) (simp add: host_env_def)
qed




subsection \<open>The analysis of missed\_counters\<close>

lemma unat_vec_size: "length v < 2 ^ 64 \<Longrightarrow> unat (vec_size v) = length v"
  by (simp add: vec_size_def unat_of_nat)

lemma at_in_bounds: "unat i < length v \<Longrightarrow> at v i = Inr (v ! unat i)"
  by (simp add: at_def)

lemma logic_size_loop_returns:
  assumes "length v < 2 ^ 64" and "1 \<le> unat i" and "unat i \<le> length v" and "logic_size = i"
  shows "\<exists>r. logic_size_loop v i logic_size = Inr r \<and> unat i \<le> unat r \<and> unat r \<le> length v"
  using assms
proof (induction v i logic_size rule: logic_size_loop.induct)
  case (1 v i logic_size)
  show ?case
  proof (cases "i < vec_size v")
    case False
    with "1.prems" show ?thesis
      by (subst logic_size_loop.simps) simp
  next
    case True
    with "1.prems"(1) have lt: "unat i < length v"
      by (simp add: word_less_nat_alt unat_vec_size)
    from "1.prems"(2) have "unat (i - 1) = unat i - 1"
      by (simp add: unat_sub word_le_nat_alt)
    with lt have lt': "unat (i - 1) < length v"
      by simp
    note a = at_in_bounds [OF lt] at_in_bounds [OF lt']
    show ?thesis
    proof (cases "v ! unat i > v ! unat (i - 1)")
      case False
      with True "1.prems" show ?thesis
        by (subst logic_size_loop.simps) (simp add: a)
    next
      case gt: True
      have s: "unat (i + 1) = Suc (unat i)"
        using True by (rule word_less_Suc)
      from "1.IH" [OF True a(1) a(2) gt "1.prems"(1)] s lt "1.prems"(4)
      obtain r where "logic_size_loop v (i + 1) (logic_size + 1) = Inr r"
        and "unat (i + 1) \<le> unat r" and "unat r \<le> length v"
        by auto
      with True gt s show ?thesis
        by (subst logic_size_loop.simps) (simp add: a)
    qed
  qed
qed

lemma start_index_loop_stays:
  assumes "unat logic_size \<le> length v"
    and "\<forall>j. unat i \<le> j \<and> j < unat logic_size \<longrightarrow> v ! j \<le> num_msgs div 2"
  shows "start_index_loop v num_msgs i logic_size = Inr 0"
  using assms
proof (induction v num_msgs i logic_size rule: start_index_loop.induct)
  case (1 v num_msgs i logic_size)
  show ?case
  proof (cases "i < logic_size")
    case False
    then show ?thesis
      by (subst start_index_loop.simps) simp
  next
    case True
    then have lt: "unat i < unat logic_size"
      by (simp add: word_less_nat_alt)
    with "1.prems"(1) have a: "at v i = Inr (v ! unat i)"
      by (simp add: at_in_bounds)
    from lt "1.prems"(2) have le: "\<not> v ! unat i > num_msgs div 2"
      by (simp add: not_less)
    have s: "unat (i + 1) = Suc (unat i)"
      using True by (rule word_less_Suc)
    from "1.prems"(2) s
    have "\<forall>j. unat (i + 1) \<le> j \<and> j < unat logic_size \<longrightarrow> v ! j \<le> num_msgs div 2"
      by simp
    from "1.IH" [OF True a le "1.prems"(1) this] True le show ?thesis
      by (subst start_index_loop.simps) (simp add: a)
  qed
qed

lemma start_index_loop_first:
  assumes "1 \<le> unat logic_size" and "v \<noteq> []" and "num_msgs div 2 < v ! 0"
  shows "start_index_loop v num_msgs 0 logic_size = Inr 0"
proof -
  from assms(1) have "0 < logic_size"
    by (simp add: word_less_nat_alt)
  moreover from assms(2) have "at v 0 = Inr (v ! 0)"
    by (simp add: at_def)
  ultimately show ?thesis
    using assms(3) by (subst start_index_loop.simps) simp
qed

lemma assign_before_start:
  assumes "length v < 2 ^ 64"
  shows "assign v (- 1) x = Inl (Out_of_bounds (2 ^ 64 - 1) (length v))"
proof -
  have "unat (- 1 :: 64 word) = 2 ^ 64 - 1"
    by (simp add: unsigned_minus_1_eq_mask mask_eq_exp_minus_1)
  with assms show ?thesis
    by (simp add: assign_def)
qed

lemma count_vector_out_of_bounds:
  assumes "length v < 2 ^ 64"
    and "logic_size_loop v 1 1 = Inr logic_size"
    and "start_index_loop v num_msgs 0 logic_size = Inr 0"
  shows "count_vector v num_msgs c n = Inl (Out_of_bounds (2 ^ 64 - 1) (length v))"
  by (simp add: count_vector_def assms(2,3) assign_before_start [OF assms(1)])

text \<open>
  Claim C9. For every non-empty reception vector, the scan for the logic size returns; and
  when every scanned entry is at most \<open>num_msgs / 2\<close> (or already the first one is greater),
  \<^verbatim>\<open>start_index\<close> is 0, the assignment to \<^verbatim>\<open>received_msgs[i][start_index - 1]\<close> uses index
  \<open>2^64 - 1\<close>, which is outside the vector, and nothing checks it: the analysis of that
  vector, \<^verbatim>\<open>print_partial_sums\<close> when it is the local vector, and the loop over the other
  nodes when it is a remote one, all end at that access.
\<close>

theorem start_index_zero_write_out_of_bounds:
  assumes "v \<noteq> []" and "length v < 2 ^ 64"
  shows "\<exists>logic_size.
     logic_size_loop v 1 1 = Inr logic_size \<and>
     1 \<le> unat logic_size \<and> unat logic_size \<le> length v \<and>
     ((\<forall>j<unat logic_size. v ! j \<le> num_msgs div 2) \<or> num_msgs div 2 < v ! 0 \<longrightarrow>
        start_index_loop v num_msgs 0 logic_size = Inr 0 \<and>
        assign v (0 - 1) (num_msgs div 2) = Inl (Out_of_bounds (2 ^ 64 - 1) (length v)) \<and>
        count_vector v num_msgs c n = Inl (Out_of_bounds (2 ^ 64 - 1) (length v)) \<and>
        (\<forall>received_msgs my_rank num_nodes.
           at received_msgs (ucast my_rank) = Inr v \<longrightarrow>
           print_partial_sums num_nodes num_msgs my_rank received_msgs =
             Inl (Out_of_bounds (2 ^ 64 - 1) (length v))) \<and>
        (\<forall>received_msgs my_rank num_nodes i.
           i < num_nodes \<and> i \<noteq> my_rank \<and> at received_msgs (ucast i) = Inr v \<longrightarrow>
           remote_loop num_nodes num_msgs my_rank received_msgs i c n =
             Inl (Out_of_bounds (2 ^ 64 - 1) (length v))))"
proof -
  from assms have "1 \<le> unat (1 :: 64 word)" and "unat (1 :: 64 word) \<le> length v"
    by (simp_all add: Suc_leI)
  from logic_size_loop_returns [OF assms(2) this refl]
  obtain logic_size where l: "logic_size_loop v 1 1 = Inr logic_size"
    and lo: "1 \<le> unat logic_size" and hi: "unat logic_size \<le> length v"
    by auto
  have "start_index_loop v num_msgs 0 logic_size = Inr 0 \<and>
        assign v (0 - 1) (num_msgs div 2) = Inl (Out_of_bounds (2 ^ 64 - 1) (length v)) \<and>
        count_vector v num_msgs c n = Inl (Out_of_bounds (2 ^ 64 - 1) (length v)) \<and>
        (\<forall>received_msgs my_rank num_nodes.
           at received_msgs (ucast my_rank) = Inr v \<longrightarrow>
           print_partial_sums num_nodes num_msgs my_rank received_msgs =
             Inl (Out_of_bounds (2 ^ 64 - 1) (length v))) \<and>
        (\<forall>received_msgs my_rank num_nodes i.
           i < num_nodes \<and> i \<noteq> my_rank \<and> at received_msgs (ucast i) = Inr v \<longrightarrow>
           remote_loop num_nodes num_msgs my_rank received_msgs i c n =
             Inl (Out_of_bounds (2 ^ 64 - 1) (length v)))"
    if h: "(\<forall>j<unat logic_size. v ! j \<le> num_msgs div 2) \<or> num_msgs div 2 < v ! 0"
  proof -
    from h have s: "start_index_loop v num_msgs 0 logic_size = Inr 0"
    proof
      assume "\<forall>j<unat logic_size. v ! j \<le> num_msgs div 2"
      then have "\<forall>j. unat (0 :: 64 word) \<le> j \<and> j < unat logic_size \<longrightarrow> v ! j \<le> num_msgs div 2"
        by simp
      with hi show ?thesis
        by (rule start_index_loop_stays)
    next
      assume "num_msgs div 2 < v ! 0"
      with lo assms(1) show ?thesis
        by (rule start_index_loop_first)
    qed
    note cv = count_vector_out_of_bounds [OF assms(2) l s]
    have p: "print_partial_sums num_nodes num_msgs my_rank received_msgs =
        Inl (Out_of_bounds (2 ^ 64 - 1) (length v))"
      if "at received_msgs (ucast my_rank) = Inr v" for received_msgs my_rank num_nodes
      using that by (simp add: print_partial_sums_def cv)
    have r: "remote_loop num_nodes num_msgs my_rank received_msgs i c n =
        Inl (Out_of_bounds (2 ^ 64 - 1) (length v))"
      if "i < num_nodes \<and> i \<noteq> my_rank \<and> at received_msgs (ucast i) = Inr v"
      for received_msgs my_rank num_nodes i
      using that by (subst remote_loop.simps) (simp add: cv)
    have "assign v (0 - 1) (num_msgs div 2) = Inl (Out_of_bounds (2 ^ 64 - 1) (length v))"
      using assign_before_start [OF assms(2)] by simp
    with s cv p r show ?thesis
      by blast
  qed
  with l lo hi show ?thesis
    by blast
qed

text \<open>Four messages, two nodes: a local vector whose scanned entries are 1 and 2; a remote
  vector that starts at 3; and a run in which every start index is positive.\<close>

theorem start_index_zero_write_out_of_bounds_witness:
  "logic_size_loop [1, 2, 0, 0] 1 1 = Inr 2 \<and>
   start_index_loop [1, 2, 0, 0] 4 0 2 = Inr 0 \<and>
   print_partial_sums 2 4 0 [[1, 2, 0, 0], [1, 2, 3, 4]] =
     Inl (Out_of_bounds 18446744073709551615 4) \<and>
   print_partial_sums 2 4 0 [[1, 2, 3, 4], [3, 4, 0, 0]] =
     Inl (Out_of_bounds 18446744073709551615 4) \<and>
   print_partial_sums 2 4 0 [[1, 2, 3, 4], [1, 2, 4, 0]] =
     Inr ([[1, 2, 3, 4], [1, 2, 4, 0]], (0, 0, 1, 1))"
proof -
  let ?v = "[1, 2, 0, 0] :: 64 word list"
  have l: "logic_size_loop ?v 1 1 = Inr 2"
    by code_simp
  have "?v \<noteq> []" and "length ?v < 2 ^ 64"
    by simp_all
  from start_index_zero_write_out_of_bounds [OF this, of 4 0 0] l
  have imp: "(\<forall>j<unat (2 :: 64 word). ?v ! j \<le> 4 div 2) \<or> 4 div 2 < ?v ! 0 \<longrightarrow>
      start_index_loop ?v 4 0 2 = Inr 0 \<and>
      (\<forall>received_msgs my_rank num_nodes.
           at received_msgs (ucast my_rank) = Inr ?v \<longrightarrow>
           print_partial_sums num_nodes 4 my_rank received_msgs =
             Inl (Out_of_bounds (2 ^ 64 - 1) (length ?v)))"
    by auto
  have h: "\<forall>j<unat (2 :: 64 word). ?v ! j \<le> 4 div 2"
  proof (intro allI impI)
    fix j :: nat
    assume "j < unat (2 :: 64 word)"
    then have "j = 0 \<or> j = 1"
      by auto
    then show "?v ! j \<le> 4 div 2"
      by auto
  qed
  have a: "at [?v, [1, 2, 3, 4]] (ucast (0 :: 32 word)) = Inr ?v"
    by (simp add: at_def)
  from imp h a have 1: "start_index_loop ?v 4 0 2 = Inr 0"
    and 2: "print_partial_sums 2 4 0 [?v, [1, 2, 3, 4]] =
      Inl (Out_of_bounds (2 ^ 64 - 1) (length ?v))"
    by blast+
  let ?w = "[3, 4, 0, 0] :: 64 word list"
  have "?w \<noteq> []" and "length ?w < 2 ^ 64"
    by simp_all
  from start_index_zero_write_out_of_bounds [OF this, of 4 0 0]
  have "\<forall>received_msgs my_rank num_nodes i.
           i < num_nodes \<and> i \<noteq> my_rank \<and> at received_msgs (ucast i) = Inr ?w \<longrightarrow>
           remote_loop num_nodes 4 my_rank received_msgs i 0 0 =
             Inl (Out_of_bounds (2 ^ 64 - 1) (length ?w))"
    by auto
  then have r: "remote_loop 2 4 0 [[1, 2, 3, 4], ?w] 1 0 0 =
      Inl (Out_of_bounds (2 ^ 64 - 1) (length ?w))"
    by (simp add: at_def)
  have c: "count_vector [1, 2, 3, 4] 4 0 0 = Inr ([1, 2, 3, 4], 0, 0)"
    by code_simp
  have "remote_loop 2 4 0 [[1, 2, 3, 4], ?w] 0 0 0 = remote_loop 2 4 0 [[1, 2, 3, 4], ?w] 1 0 0"
    by (subst remote_loop.simps) simp
  with r c have 3: "print_partial_sums 2 4 0 [[1, 2, 3, 4], ?w] =
     Inl (Out_of_bounds 18446744073709551615 4)"
    by (simp add: print_partial_sums_def at_def)
  have 4: "print_partial_sums 2 4 0 [[1, 2, 3, 4], [1, 2, 4, 0]] =
     Inr ([[1, 2, 3, 4], [1, 2, 4, 0]], (0, 0, 1, 1))"
    by code_simp
  from l 1 2 3 4 show ?thesis
    by simp
qed

end
